theory Spec2Isabelle
  imports Complex_Main "HOL-Library.Sublist"
begin

section \<open>The OBS WebSocket client of chromadon-mcp\<close>

text \<open>
  The development follows \<^verbatim>\<open>obs-client.ts\<close> (class \<^verbatim>\<open>OBSClient\<close>). The client talks to
  three things it does not own: the WebSocket transport (\<^verbatim>\<open>obs.connect\<close>, \<^verbatim>\<open>obs.call\<close>),
  the random number generator (\<^verbatim>\<open>Math.random\<close>) and the timer (\<^verbatim>\<open>sleep\<close>). Their answers
  are inputs of the model; what the client asks of them is recorded in a trace.
  A JavaScript exception is identified with its message, the only part of it the
  client reads (\<^verbatim>\<open>err instanceof Error ? err.message : String(err)\<close>); a promise result
  is a sum, \<open>Inl\<close> the rejection. Numbers are exact: counters and whole milliseconds
  are naturals, jittered delays and the draws of \<^verbatim>\<open>Math.random\<close> are rationals. Writes
  to stderr (\<^verbatim>\<open>log\<close>) are left out: no property below observes them.
\<close>

subsection \<open>Strings\<close>

definition str_includes :: "string \<Rightarrow> string \<Rightarrow> bool" where
  \<comment> \<open>\<^verbatim>\<open>s.includes(t)\<close>: \<open>t\<close> occurs in \<open>s\<close> as a contiguous run.\<close>
  "str_includes s t = sublist t s"

fun join :: "string list \<Rightarrow> string \<Rightarrow> string" where
  \<comment> \<open>\<^verbatim>\<open>xs.join(sep)\<close>\<close>
  "join [] sep = []"
| "join [x] sep = x"
| "join (x # y # ys) sep = x @ sep @ join (y # ys) sep"

definition digit :: "nat \<Rightarrow> char" where
  "digit d = ''0123456789'' ! d"

function show_nat :: "nat \<Rightarrow> string" where
  \<comment> \<open>a non-negative integer inside a template literal: its decimal digits\<close>
  "show_nat n = (if n < 10 then [digit n] else show_nat (n div 10) @ [digit (n mod 10)])"
  by pat_completeness auto
termination
  by (relation "measure (\<lambda>n. n)") auto

subsection \<open>Requests, responses and the environment\<close>

record versions =
  obsWebSocketVersion :: string
  negotiatedRpcVersion :: nat

record scene_entry =
  sceneName :: string

record input_entry =
  inputName :: string

record stats =
  cpuUsage :: rat
  memoryUsage :: rat
  activeFps :: rat

datatype request =
    GetStreamStatus
  | StartStream
  | StopStream
  | GetRecordStatus
  | StartRecord
  | StopRecord
  | GetCurrentProgramScene
  | GetSceneList
  | SetCurrentProgramScene string
  | SetInputMute string bool
  | GetInputList
  | GetSceneItemId string string
  | SetSceneItemEnabled string int bool
  | GetStats

text \<open>
  The result object of an RPC: the fields the client reads from it. Each call site reads
  the fields that the typings of the request promise; the others are not looked at.
\<close>

record response =
  outputActive :: bool
  outputTimecode :: string
  outputPath :: string
  currentProgramSceneName :: string
  scenes :: "scene_entry list"
  inputs :: "input_entry list"
  sceneItemId :: int
  statsOf :: stats

datatype event = Handshake | Sleep rat | Call request | Disconnect

text \<open>
  The environment answers the \<open>k\<close>-th handshake, the \<open>k\<close>-th draw of \<^verbatim>\<open>Math.random\<close>
  (a number in \<open>[0, 1)\<close>) and the \<open>k\<close>-th RPC call, counted from 0.
\<close>

record env =
  handshake :: "nat \<Rightarrow> string + versions"
  mathRandom :: "nat \<Rightarrow> rat"
  rpc :: "nat \<Rightarrow> request \<Rightarrow> string + response"

definition handshakes :: "event list \<Rightarrow> nat" where
  "handshakes tr = length (filter (\<lambda>e. e = Handshake) tr)"

fun is_Sleep :: "event \<Rightarrow> bool" where
  "is_Sleep (Sleep d) = True"
| "is_Sleep e = False"

fun is_Call :: "event \<Rightarrow> bool" where
  "is_Call (Call r) = True"
| "is_Call e = False"

definition draws :: "event list \<Rightarrow> nat" where
  \<comment> \<open>one draw of \<^verbatim>\<open>Math.random\<close> precedes every sleep\<close>
  "draws tr = length (filter is_Sleep tr)"

definition calls :: "event list \<Rightarrow> nat" where
  "calls tr = length (filter is_Call tr)"

fun slept :: "event list \<Rightarrow> rat list" where
  \<comment> \<open>the delays slept, in milliseconds, in order\<close>
  "slept [] = []"
| "slept (Sleep d # tr) = d # slept tr"
| "slept (e # tr) = slept tr"

fun called :: "event list \<Rightarrow> request list" where
  \<comment> \<open>the RPC requests sent, in order\<close>
  "called [] = []"
| "called (Call r # tr) = r # called tr"
| "called (e # tr) = called tr"

subsection \<open>The client and its connection lifecycle\<close>

record client =
  connected :: bool
  connecting :: bool
  retryCount :: nat
  maxRetries :: nat
  baseDelay :: nat
  maxDelay :: nat

definition new_client :: client where
  \<comment> \<open>the field initialisers of the class\<close>
  "new_client = \<lparr>connected = False, connecting = False, retryCount = 0,
     maxRetries = 10, baseDelay = 1000, maxDelay = 30000\<rparr>"

definition backoff :: "client \<Rightarrow> nat" where
  \<comment> \<open>\<^verbatim>\<open>Math.min(baseDelay * Math.pow(2, retryCount - 1), maxDelay)\<close>\<close>
  "backoff c = min (baseDelay c * 2 ^ (retryCount c - 1)) (maxDelay c)"

definition jittered :: "nat \<Rightarrow> rat \<Rightarrow> rat" where
  \<comment> \<open>\<^verbatim>\<open>delay * (0.7 + Math.random() * 0.6)\<close>\<close>
  "jittered delay r = of_nat delay * (7 / 10 + r * (6 / 10))"

definition auth_failed :: string where
  "auth_failed = ''AUTH_FAILED: OBS WebSocket password is incorrect''"

definition exhausted :: "nat \<Rightarrow> string \<Rightarrow> string" where
  "exhausted n message =
     ''Failed to connect after '' @ show_nat n @ '' attempts. Last error: '' @ message"

datatype error_class = Refused | Auth | Other

definition classify :: "string \<Rightarrow> error_class" where
  \<comment> \<open>the \<^verbatim>\<open>if / else if / else\<close> chain of the \<^verbatim>\<open>catch\<close> block, in the order of the source\<close>
  "classify message =
     (if str_includes message ''ECONNREFUSED'' then Refused
      else if str_includes message ''Authentication'' \<or> str_includes message ''auth'' then Auth
      else Other)"

text \<open>
  The retry loop of \<^verbatim>\<open>connect\<close>. Only the authentication branch leaves the \<^verbatim>\<open>catch\<close>
  block early; the other two log and fall through to the exhaustion test and the sleep.
\<close>

function connect_loop ::
  "env \<Rightarrow> client \<Rightarrow> event list \<Rightarrow> (string + unit) \<times> client \<times> event list" where
  "connect_loop E c tr =
     (if retryCount c \<le> maxRetries c then
        (case handshake E (handshakes tr) of
           Inr v \<Rightarrow>
             (Inr (), c\<lparr>connected := True, connecting := False, retryCount := 0\<rparr>,
              tr @ [Handshake])
         | Inl message \<Rightarrow>
             (let c1 = c\<lparr>retryCount := retryCount c + 1\<rparr>; tr1 = tr @ [Handshake] in
              if classify message = Auth
              then (Inl auth_failed, c1\<lparr>connecting := False\<rparr>, tr1)
              else if retryCount c1 > maxRetries c1
              then (Inl (exhausted (maxRetries c1) message), c1\<lparr>connecting := False\<rparr>, tr1)
              else connect_loop E c1
                     (tr1 @ [Sleep (jittered (backoff c1) (mathRandom E (draws tr1)))])))
      else (Inr (), c, tr))"
  by pat_completeness auto
termination
  by (relation "measure (\<lambda>(E, c, tr). maxRetries c + 1 - retryCount c)") auto

definition connect ::
  "env \<Rightarrow> client \<Rightarrow> event list \<Rightarrow> (string + unit) \<times> client \<times> event list" where
  "connect E c tr =
     (if connected c \<or> connecting c then (Inr (), c, tr)
      else connect_loop E (c\<lparr>connecting := True\<rparr>) tr)"


subsection \<open>Asynchronous operations\<close>

text \<open>
  An \<^verbatim>\<open>async\<close> function body is the tree of its suspension points: it returns, throws,
  or sends a request over \<^verbatim>\<open>obs.call\<close> and goes on with the answer once the promise
  settles (\<open>Inl\<close> a rejection, \<open>Inr\<close> the result object). The same tree is run alone
  against an environment (\<open>run\<close>) and scheduled against other operations in the model
  of the command queue.
\<close>

datatype 'a prog =
    Return 'a
  | Throw string
  | Await request "(string + response) \<Rightarrow> 'a prog"

primrec bind_prog :: "'a prog \<Rightarrow> ('a \<Rightarrow> 'b prog) \<Rightarrow> 'b prog" where
  \<comment> \<open>sequencing: \<^verbatim>\<open>const x = await p; f(x)\<close>\<close>
  "bind_prog (Return x) f = f x"
| "bind_prog (Throw e) f = Throw e"
| "bind_prog (Await r k) f = Await r (\<lambda>x. bind_prog (k x) f)"

primrec catch_prog :: "'a prog \<Rightarrow> (string \<Rightarrow> 'a prog) \<Rightarrow> 'a prog" where
  \<comment> \<open>\<^verbatim>\<open>try { p } catch (err) { h(message of err) }\<close>\<close>
  "catch_prog (Return x) h = Return x"
| "catch_prog (Throw e) h = h e"
| "catch_prog (Await r k) h = Await r (\<lambda>x. catch_prog (k x) h)"

definition obs_call :: "request \<Rightarrow> response prog" where
  \<comment> \<open>\<^verbatim>\<open>await this.obs.call(...)\<close>: a rejection is thrown at the \<^verbatim>\<open>await\<close>\<close>
  "obs_call r = Await r (\<lambda>x. case x of Inl e \<Rightarrow> Throw e | Inr v \<Rightarrow> Return v)"

primrec run :: "env \<Rightarrow> 'a prog \<Rightarrow> event list \<Rightarrow> (string + 'a) \<times> event list" where
  \<comment> \<open>an operation running alone: every request is answered by the environment\<close>
  "run E (Return x) tr = (Inr x, tr)"
| "run E (Throw e) tr = (Inl e, tr)"
| "run E (Await r k) tr = run E (k (rpc E (calls tr) r)) (tr @ [Call r])"

record config =
  SAFE_MODE :: bool
  SAFE_SCENES :: "string list"

definition default_config :: config where
  \<comment> \<open>the module constants when the environment variables are not set\<close>
  "default_config = \<lparr>SAFE_MODE = True, SAFE_SCENES = [''StartingSoon'', ''Main'']\<rparr>"

record op_result =
  success :: bool
  message :: string
  outputPath :: "string option"

definition result :: "bool \<Rightarrow> string \<Rightarrow> op_result" where
  \<comment> \<open>\<^verbatim>\<open>{ success, message }\<close>\<close>
  "result ok msg = \<lparr>success = ok, message = msg, outputPath = None\<rparr>"

definition not_connected :: string where
  "not_connected =
     ''NOT_CONNECTED: OBS WebSocket is not connected. Is OBS running with WebSocket enabled?''"

definition ensureConnected :: "client \<Rightarrow> unit prog" where
  "ensureConnected c = (if \<not> connected c then Throw not_connected else Return ())"

definition getCurrentScene :: "client \<Rightarrow> string prog" where
  "getCurrentScene c =
     bind_prog (ensureConnected c) (\<lambda>_.
     bind_prog (obs_call GetCurrentProgramScene) (\<lambda>res.
     Return (currentProgramSceneName res)))"

definition getSceneList :: "client \<Rightarrow> string list prog" where
  "getSceneList c =
     bind_prog (ensureConnected c) (\<lambda>_.
     bind_prog (obs_call GetSceneList) (\<lambda>res.
     Return (map sceneName (scenes res))))"

definition safe_mode_refusal :: "config \<Rightarrow> string \<Rightarrow> string" where
  "safe_mode_refusal cfg scene =
     ''SAFE_MODE: Refusing to start stream. Current scene \"'' @ scene @
     ''\" is not in safe list ['' @ join (SAFE_SCENES cfg) '', '' @
     '']. Switch to an approved scene first.''"

definition startStream_checked :: "op_result prog" where
  \<comment> \<open>\<^verbatim>\<open>startStream\<close> after the safe mode check\<close>
  "startStream_checked =
     bind_prog (obs_call GetStreamStatus) (\<lambda>status.
     if outputActive status then Return (result True ''Stream already active'')
     else bind_prog (obs_call StartStream) (\<lambda>_.
          Return (result True ''Stream started'')))"

definition startStream :: "config \<Rightarrow> client \<Rightarrow> op_result prog" where
  "startStream cfg c =
     bind_prog (ensureConnected c) (\<lambda>_.
     if SAFE_MODE cfg then
       bind_prog (getCurrentScene c) (\<lambda>scene.
       if scene \<notin> set (SAFE_SCENES cfg)
       then Return (result False (safe_mode_refusal cfg scene))
       else startStream_checked)
     else startStream_checked)"

definition stopStream :: "client \<Rightarrow> op_result prog" where
  "stopStream c =
     bind_prog (ensureConnected c) (\<lambda>_.
     bind_prog (obs_call GetStreamStatus) (\<lambda>status.
     if \<not> outputActive status then Return (result True ''Stream already stopped'')
     else bind_prog (obs_call StopStream) (\<lambda>_.
          Return (result True ''Stream stopped''))))"

definition startRecording :: "client \<Rightarrow> op_result prog" where
  "startRecording c =
     bind_prog (ensureConnected c) (\<lambda>_.
     bind_prog (obs_call GetRecordStatus) (\<lambda>status.
     if outputActive status then Return (result True ''Recording already active'')
     else bind_prog (obs_call StartRecord) (\<lambda>_.
          Return (result True ''Recording started''))))"

definition stopRecording :: "client \<Rightarrow> op_result prog" where
  "stopRecording c =
     bind_prog (ensureConnected c) (\<lambda>_.
     bind_prog (obs_call GetRecordStatus) (\<lambda>status.
     if \<not> outputActive status then Return (result True ''Recording already stopped'')
     else bind_prog (obs_call StopRecord) (\<lambda>res.
          Return \<lparr>success = True, message = ''Recording stopped'',
                  outputPath = Some (response.outputPath res)\<rparr>)))"

definition scene_not_found :: "string \<Rightarrow> string list \<Rightarrow> string" where
  "scene_not_found name available =
     ''SCENE_NOT_FOUND: Scene \"'' @ name @ ''\" does not exist. Available: ['' @
     join available '', '' @ '']''"

definition setScene :: "string \<Rightarrow> client \<Rightarrow> op_result prog" where
  "setScene name c =
     bind_prog (ensureConnected c) (\<lambda>_.
     bind_prog (getSceneList c) (\<lambda>available.
     if name \<notin> set available then Return (result False (scene_not_found name available))
     else bind_prog (obs_call (SetCurrentProgramScene name)) (\<lambda>_.
          Return (result True (''Switched to scene: '' @ name)))))"


definition fallback_mics :: "string list" where
  "fallback_mics =
     [''Mic/Aux'', ''Blue Yeti'', ''Microphone'', ''Mic'', ''Audio Input Capture'',
      ''Desktop Audio'']"

definition micNames :: "string option \<Rightarrow> string list" where
  \<comment> \<open>\<^verbatim>\<open>inputName ? [inputName] : [...]\<close> for the optional argument \<open>given\<close>:
      \<^verbatim>\<open>undefined\<close> and the empty string are falsy\<close>
  "micNames given =
     (case given of
        None \<Rightarrow> fallback_mics
      | Some n \<Rightarrow> if n = [] then fallback_mics else [n])"

definition muted_message :: "string \<Rightarrow> bool \<Rightarrow> string" where
  "muted_message name mute = name @ '' '' @ (if mute then ''muted'' else ''unmuted'')"

definition mic_not_found :: "string list \<Rightarrow> string list \<Rightarrow> string" where
  "mic_not_found tried available =
     ''MIC_NOT_FOUND: Could not find mic input. Tried: ['' @ join tried '', '' @
     '']. Available inputs: ['' @ join available '', '' @ '']''"

text \<open>
  The \<^verbatim>\<open>for\<close> loop of \<^verbatim>\<open>setMicMute\<close>: each name is tried inside its own \<^verbatim>\<open>try\<close>, a
  rejection is caught and the loop continues; \<open>after\<close> is the code behind the loop.
\<close>

fun try_mics :: "bool \<Rightarrow> string list \<Rightarrow> op_result prog \<Rightarrow> op_result prog" where
  "try_mics mute [] after = after"
| "try_mics mute (name # names) after =
     bind_prog
       (catch_prog
          (bind_prog (obs_call (SetInputMute name mute)) (\<lambda>_.
           Return (Some (result True (muted_message name mute)))))
          (\<lambda>e. Return None))
       (\<lambda>r. case r of Some res \<Rightarrow> Return res | None \<Rightarrow> try_mics mute names after)"

definition setMicMute :: "bool \<Rightarrow> string option \<Rightarrow> client \<Rightarrow> op_result prog" where
  "setMicMute mute given c =
     bind_prog (ensureConnected c) (\<lambda>_.
     try_mics mute (micNames given)
       (bind_prog (obs_call GetInputList) (\<lambda>res.
        Return (result False
          (mic_not_found (micNames given) (map inputName (inputs res)))))))"

definition source_not_found :: "string \<Rightarrow> string \<Rightarrow> string" where
  "source_not_found source scene =
     ''SOURCE_NOT_FOUND: \"'' @ source @ ''\" not found in scene \"'' @ scene @
     ''\". Check exact source and scene names in OBS.''"

definition visibility_message :: "string \<Rightarrow> string \<Rightarrow> bool \<Rightarrow> string" where
  "visibility_message source scene visible =
     source @ '' in '' @ scene @ '' set to '' @ (if visible then ''visible'' else ''hidden'')"

definition is_not_found :: "string \<Rightarrow> bool" where
  \<comment> \<open>the test of the \<^verbatim>\<open>catch\<close> block of \<^verbatim>\<open>setSourceVisibility\<close>\<close>
  "is_not_found msg = (str_includes msg ''NotFound'' \<or> str_includes msg ''600'')"

definition setSourceVisibility :: "string \<Rightarrow> string \<Rightarrow> bool \<Rightarrow> client \<Rightarrow> op_result prog" where
  "setSourceVisibility scene source visible c =
     bind_prog (ensureConnected c) (\<lambda>_.
     catch_prog
       (bind_prog (obs_call (GetSceneItemId scene source)) (\<lambda>res.
        bind_prog (obs_call (SetSceneItemEnabled scene (sceneItemId res) visible)) (\<lambda>_.
        Return (result True (visibility_message source scene visible)))))
       (\<lambda>msg. if is_not_found msg then Return (result False (source_not_found source scene))
              else Throw msg))"

subsection \<open>Status\<close>

record OBSStatus =
  connected :: bool
  streaming :: bool
  recording :: bool
  currentScene :: string
  availableScenes :: "string list"
  streamTimecode :: "string option"
  recordTimecode :: "string option"
  cpuUsage :: "rat option"
  memoryUsage :: "rat option"
  fps :: "rat option"

definition offline_status :: "string \<Rightarrow> OBSStatus" where
  \<comment> \<open>the object literal returned when disconnected (\<^verbatim>\<open>N/A\<close>) and on failure (\<^verbatim>\<open>ERROR\<close>)\<close>
  "offline_status scene =
     \<lparr>connected = False, streaming = False, recording = False, currentScene = scene,
      availableScenes = [], streamTimecode = None, recordTimecode = None,
      cpuUsage = None, memoryUsage = None, fps = None\<rparr>"

definition or_null :: "string \<Rightarrow> string option" where
  \<comment> \<open>\<^verbatim>\<open>s || null\<close>: the empty string is falsy\<close>
  "or_null s = (if s = [] then None else Some s)"

definition first_rejection :: "(string + 'a) list \<Rightarrow> string option" where
  \<comment> \<open>what \<^verbatim>\<open>Promise.all\<close> rejects with, taking the promises to settle in order\<close>
  "first_rejection rs = (case filter isl rs of [] \<Rightarrow> None | r # _ \<Rightarrow> Some (projl r))"

text \<open>
  \<^verbatim>\<open>getStatus\<close> is not queued. When connected it sends its five requests at once
  (\<^verbatim>\<open>Promise.all\<close> starts every call before any answer is looked at), so all five are in
  the trace whatever the answers are. A rejection of \<^verbatim>\<open>GetStats\<close> is replaced by
  \<^verbatim>\<open>null\<close>; any other rejection rejects the \<^verbatim>\<open>Promise.all\<close>, and the \<^verbatim>\<open>catch\<close> block
  returns the error snapshot. \<open>status_body\<close> is the \<^verbatim>\<open>try\<close> block.
\<close>

definition status_body :: "env \<Rightarrow> event list \<Rightarrow> (string + OBSStatus) \<times> event list" where
  "status_body E tr =
     (let n = calls tr;
          streamStatus = rpc E n GetStreamStatus;
          recordStatus = rpc E (n + 1) GetRecordStatus;
          sceneInfo = rpc E (n + 2) GetCurrentProgramScene;
          sceneList = rpc E (n + 3) GetSceneList;
          stats = (case rpc E (n + 4) GetStats of Inl e \<Rightarrow> None | Inr v \<Rightarrow> Some (statsOf v));
          tr' = tr @ [Call GetStreamStatus, Call GetRecordStatus, Call GetCurrentProgramScene,
                      Call GetSceneList, Call GetStats]
      in case first_rejection [streamStatus, recordStatus, sceneInfo, sceneList] of
           Some e \<Rightarrow> (Inl e, tr')
         | None \<Rightarrow>
             (Inr \<lparr>connected = True,
                   streaming = outputActive (projr streamStatus),
                   recording = outputActive (projr recordStatus),
                   currentScene = currentProgramSceneName (projr sceneInfo),
                   availableScenes = map sceneName (scenes (projr sceneList)),
                   streamTimecode = or_null (outputTimecode (projr streamStatus)),
                   recordTimecode = or_null (outputTimecode (projr recordStatus)),
                   cpuUsage = map_option stats.cpuUsage stats,
                   memoryUsage = map_option stats.memoryUsage stats,
                   fps = map_option activeFps stats\<rparr>, tr'))"

definition getStatus ::
  "env \<Rightarrow> client \<Rightarrow> event list \<Rightarrow> (string + OBSStatus) \<times> client \<times> event list" where
  "getStatus E c tr =
     (if \<not> client.connected c then (Inr (offline_status ''N/A''), c, tr)
      else case status_body E tr of
             (Inr snapshot, tr') \<Rightarrow> (Inr snapshot, c, tr')
           | (Inl e, tr') \<Rightarrow> (Inr (offline_status ''ERROR''), c, tr'))"

definition isConnected :: "client \<Rightarrow> bool" where
  "isConnected c = client.connected c"


text \<open>
  The snapshot as the caller sees it (\<^verbatim>\<open>JSON.stringify(status)\<close> in the tool handler):
  a field of type \<^verbatim>\<open>T | null\<close> is \<open>JNull\<close> exactly when it holds \<^verbatim>\<open>null\<close>.
\<close>

datatype json = JNull | JBool bool | JNum rat | JStr string | JArr "json list"

fun nullable :: "('a \<Rightarrow> json) \<Rightarrow> 'a option \<Rightarrow> json" where
  "nullable f None = JNull"
| "nullable f (Some x) = f x"

definition status_json :: "OBSStatus \<Rightarrow> (string \<times> json) list" where
  "status_json s =
     [(''connected'', JBool (connected s)),
      (''streaming'', JBool (streaming s)),
      (''recording'', JBool (recording s)),
      (''currentScene'', JStr (currentScene s)),
      (''availableScenes'', JArr (map JStr (availableScenes s))),
      (''streamTimecode'', nullable JStr (streamTimecode s)),
      (''recordTimecode'', nullable JStr (recordTimecode s)),
      (''cpuUsage'', nullable JNum (cpuUsage s)),
      (''memoryUsage'', nullable JNum (memoryUsage s)),
      (''fps'', nullable JNum (fps s))]"

subsection \<open>Events of the session\<close>

text \<open>
  What can happen to a client between operations: a call of \<^verbatim>\<open>connect\<close> or
  \<^verbatim>\<open>disconnect\<close>, the two transport events the constructor subscribes to, and the
  timer set by \<^verbatim>\<open>scheduleReconnect\<close> going off; \<open>timers\<close> counts the timers pending.
  The stream, record, scene, mute and visibility operations and \<^verbatim>\<open>getStatus\<close> write
  no field of the client. \<^verbatim>\<open>connect\<close> is taken as one step here; this is exact
  whenever it does not reach its loop body, where its only suspension points are.
\<close>

datatype action =
    CallConnect
  | CallDisconnect
  | ConnectionClosed
  | ConnectionError
  | ReconnectTimer

definition scheduleReconnect :: "client \<Rightarrow> nat \<Rightarrow> nat" where
  "scheduleReconnect c timers = (if \<not> connecting c then timers + 1 else timers)"

definition disconnect :: "client \<Rightarrow> event list \<Rightarrow> client \<times> event list" where
  "disconnect c tr =
     (if client.connected c then (c\<lparr>client.connected := False\<rparr>, tr @ [Disconnect]) else (c, tr))"

fun fire :: "env \<Rightarrow> action \<Rightarrow> client \<times> event list \<times> nat \<Rightarrow> client \<times> event list \<times> nat" where
  "fire E CallConnect (c, tr, timers) =
     (case connect E c tr of (r, c', tr') \<Rightarrow> (c', tr', timers))"
| "fire E CallDisconnect (c, tr, timers) =
     (case disconnect c tr of (c', tr') \<Rightarrow> (c', tr', timers))"
| "fire E ConnectionClosed (c, tr, timers) =
     (c\<lparr>client.connected := False\<rparr>, tr,
      scheduleReconnect (c\<lparr>client.connected := False\<rparr>) timers)"
| "fire E ConnectionError (c, tr, timers) = (c\<lparr>client.connected := False\<rparr>, tr, timers)"
| "fire E ReconnectTimer (c, tr, timers) =
     (if timers = 0 then (c, tr, timers)
      else case connect E c tr of (r, c', tr') \<Rightarrow> (c', tr', timers - 1))"

definition spent :: "client \<Rightarrow> bool" where
  \<comment> \<open>the retry budget is used up and the client is not connected\<close>
  "spent c = (maxRetries c < retryCount c \<and> \<not> client.connected c)"

fun fire_all ::
  "env \<Rightarrow> action list \<Rightarrow> client \<times> event list \<times> nat \<Rightarrow> client \<times> event list \<times> nat" where
  "fire_all E [] s = s"
| "fire_all E (a # as) s = fire_all E as (fire E a s)"

subsection \<open>The command queue\<close>

text \<open>
  \<^verbatim>\<open>serialize\<close> chains promises, so what it guarantees shows only when several calls
  are in flight. JavaScript runs each piece of code between two suspension points
  without interruption; the pieces of \<^verbatim>\<open>serialize(fn)\<close> are
  \<^item> the call itself, up to \<^verbatim>\<open>await prev\<close>: it reads \<^verbatim>\<open>commandQueue\<close>, replaces it with a
    new pending promise and keeps that promise's \<^verbatim>\<open>resolve\<close> (\<open>Invoke\<close>);
  \<^item> the resumption once \<^verbatim>\<open>prev\<close> is fulfilled: \<^verbatim>\<open>fn\<close> starts and runs up to its first
    \<^verbatim>\<open>obs.call\<close>, or to its end (\<open>Resume\<close>);
  \<^item> the resumption of \<^verbatim>\<open>fn\<close> at an answer of the controller, up to the next
    \<^verbatim>\<open>obs.call\<close> or to its end (\<open>Answer\<close>);
  \<^item> the \<^verbatim>\<open>finally\<close> block after \<^verbatim>\<open>fn\<close> has returned or thrown (\<open>Finally\<close>).
  A schedule is any sequence of these pieces, together with changes of the \<^verbatim>\<open>connected\<close>
  flag by the rest of the client (\<open>Link\<close>). Promises are numbered; promise 0 is the
  initial \<^verbatim>\<open>Promise.resolve()\<close>. \<open>wire\<close> records every request sent to the controller
  with the index of the call of \<^verbatim>\<open>serialize\<close> that sent it.
\<close>

datatype operation =
    StartStreamOp
  | StopStreamOp
  | StartRecordingOp
  | StopRecordingOp
  | SetSceneOp string
  | SetMicMuteOp bool "string option"
  | SetSourceVisibilityOp string string bool

fun body :: "config \<Rightarrow> operation \<Rightarrow> client \<Rightarrow> op_result prog" where
  \<comment> \<open>the \<^verbatim>\<open>fn\<close> each mutating method hands to \<^verbatim>\<open>serialize\<close>\<close>
  "body cfg StartStreamOp c = startStream cfg c"
| "body cfg StopStreamOp c = stopStream c"
| "body cfg StartRecordingOp c = startRecording c"
| "body cfg StopRecordingOp c = stopRecording c"
| "body cfg (SetSceneOp name) c = setScene name c"
| "body cfg (SetMicMuteOp mute given) c = setMicMute mute given c"
| "body cfg (SetSourceVisibilityOp scene source visible) c =
     setSourceVisibility scene source visible c"

datatype stage =
    is_Waiting: Waiting
  | is_Running: Running "(string + response) \<Rightarrow> op_result prog"
  | is_Settled: Settled "string + op_result"
  | is_Released: Released "string + op_result"

record task =
  invoked :: operation
  prev :: nat
  resolve :: nat
  stage :: stage

record scheduler =
  session :: client
  commandQueue :: nat
  fulfilled :: "bool list"
  tasks :: "task list"
  wire :: "(nat \<times> request) list"

definition init :: "client \<Rightarrow> scheduler" where
  "init c = \<lparr>session = c, commandQueue = 0, fulfilled = [True], tasks = [], wire = []\<rparr>"

datatype sched =
    Invoke operation
  | Resume nat
  | Answer nat "string + response"
  | Finally nat
  | Link bool

definition set_stage :: "nat \<Rightarrow> stage \<Rightarrow> scheduler \<Rightarrow> scheduler" where
  "set_stage i st s = s\<lparr>tasks := (tasks s)[i := (tasks s ! i)\<lparr>stage := st\<rparr>]\<rparr>"

fun advance :: "nat \<Rightarrow> op_result prog \<Rightarrow> scheduler \<Rightarrow> scheduler" where
  \<comment> \<open>\<^verbatim>\<open>fn\<close> of task \<open>i\<close> runs to its next suspension point\<close>
  "advance i (Return v) s = set_stage i (Settled (Inr v)) s"
| "advance i (Throw e) s = set_stage i (Settled (Inl e)) s"
| "advance i (Await r k) s = set_stage i (Running k) (s\<lparr>wire := wire s @ [(i, r)]\<rparr>)"

fun step :: "config \<Rightarrow> sched \<Rightarrow> scheduler \<Rightarrow> scheduler option" where
  "step cfg (Invoke opn) s =
     Some (s\<lparr>commandQueue := length (fulfilled s),
             fulfilled := fulfilled s @ [False],
             tasks := tasks s @ [\<lparr>invoked = opn, prev = commandQueue s,
                                  resolve = length (fulfilled s), stage = Waiting\<rparr>]\<rparr>)"
| "step cfg (Resume i) s =
     (if i < length (tasks s) then
        (case stage (tasks s ! i) of
           Waiting \<Rightarrow>
             if prev (tasks s ! i) < length (fulfilled s) \<and> fulfilled s ! prev (tasks s ! i)
             then Some (advance i (body cfg (invoked (tasks s ! i)) (session s)) s)
             else None
         | _ \<Rightarrow> None)
      else None)"
| "step cfg (Answer i x) s =
     (if i < length (tasks s) then
        (case stage (tasks s ! i) of
           Running k \<Rightarrow> Some (advance i (k x) s)
         | _ \<Rightarrow> None)
      else None)"
| "step cfg (Finally i) s =
     (if i < length (tasks s) then
        (case stage (tasks s ! i) of
           Settled r \<Rightarrow>
             Some (set_stage i (Released r)
                     (s\<lparr>fulfilled := (fulfilled s)[resolve (tasks s ! i) := True]\<rparr>))
         | _ \<Rightarrow> None)
      else None)"
| "step cfg (Link b) s = Some (s\<lparr>session := (session s)\<lparr>client.connected := b\<rparr>\<rparr>)"

fun exec :: "config \<Rightarrow> sched list \<Rightarrow> scheduler \<Rightarrow> scheduler option" where
  "exec cfg [] s = Some s"
| "exec cfg (a # as) s = (case step cfg a s of None \<Rightarrow> None | Some s' \<Rightarrow> exec cfg as s')"

text \<open>
  A call of \<^verbatim>\<open>serialize\<close> is \<open>waiting\<close> until it starts \<^verbatim>\<open>fn\<close>, and \<open>released\<close>
  once it has run its \<^verbatim>\<open>finally\<close> block.
\<close>

definition released :: "task \<Rightarrow> bool" where
  [simp]: "released t = is_Released (stage t)"

definition waiting :: "task \<Rightarrow> bool" where
  [simp]: "waiting t = is_Waiting (stage t)"

text \<open>
  What holds of the queue after every schedule: promise \<open>i + 1\<close> belongs to call \<open>i\<close>,
  which waits for promise \<open>i\<close>; a promise is fulfilled exactly when its call has run
  its \<^verbatim>\<open>finally\<close> block; a call that has started has all earlier calls behind it.
\<close>

definition queue_inv :: "scheduler \<Rightarrow> bool" where
  "queue_inv s \<longleftrightarrow>
     length (fulfilled s) = Suc (length (tasks s)) \<and>
     commandQueue s = length (tasks s) \<and>
     fulfilled s ! 0 \<and>
     (\<forall>i < length (tasks s).
        prev (tasks s ! i) = i \<and> resolve (tasks s ! i) = Suc i \<and>
        (fulfilled s ! Suc i \<longleftrightarrow> released (tasks s ! i)) \<and>
        (\<not> waiting (tasks s ! i) \<longrightarrow> (\<forall>k<i. released (tasks s ! k)))) \<and>
     sorted (map fst (wire s)) \<and>
     (\<forall>k \<in> fst ` set (wire s). k < length (tasks s) \<and> \<not> waiting (tasks s ! k))"

subsection \<open>Environments used as examples\<close>

definition refused_env :: env where
  \<comment> \<open>nothing listens on the port\<close>
  "refused_env =
     \<lparr>handshake = (\<lambda>k. Inl ''connect ECONNREFUSED 127.0.0.1:4455''),
      mathRandom = (\<lambda>k. if k = 5 then 1 / 2 else 0),
      rpc = (\<lambda>k r. Inl ''Not connected'')\<rparr>"

definition refused_auth_env :: env where
  \<comment> \<open>the first attempt is refused by a host whose name contains \<^verbatim>\<open>auth\<close>\<close>
  "refused_auth_env =
     \<lparr>handshake = (\<lambda>k. if k = 0 then Inl ''connect ECONNREFUSED auth.studio.lan:4455''
                        else Inr \<lparr>obsWebSocketVersion = ''5.1.0'', negotiatedRpcVersion = 1\<rparr>),
      mathRandom = (\<lambda>k. 0),
      rpc = (\<lambda>k r. Inl ''Not connected'')\<rparr>"

definition wrong_password_env :: env where
  "wrong_password_env =
     \<lparr>handshake = (\<lambda>k. Inl ''Authentication failed.''),
      mathRandom = (\<lambda>k. 0),
      rpc = (\<lambda>k r. Inl ''Not connected'')\<rparr>"

definition empty_response :: response where
  "empty_response =
     \<lparr>outputActive = False, outputTimecode = [], outputPath = [],
      currentProgramSceneName = [], scenes = [], inputs = [], sceneItemId = 0,
      statsOf = \<lparr>stats.cpuUsage = 0, stats.memoryUsage = 0, activeFps = 0\<rparr>\<rparr>"

definition studio :: "string list \<Rightarrow> env" where
  \<comment> \<open>a controller showing scene \<^verbatim>\<open>BRB\<close>, with the audio inputs \<open>mics\<close> and no scene items\<close>
  "studio mics =
     \<lparr>handshake = (\<lambda>k. Inr \<lparr>obsWebSocketVersion = ''5.1.0'', negotiatedRpcVersion = 1\<rparr>),
      mathRandom = (\<lambda>k. 0),
      rpc = (\<lambda>k r. case r of
          GetCurrentProgramScene \<Rightarrow> Inr (empty_response\<lparr>currentProgramSceneName := ''BRB''\<rparr>)
        | GetSceneList \<Rightarrow>
            Inr (empty_response\<lparr>scenes :=
              [\<lparr>sceneName = ''StartingSoon''\<rparr>, \<lparr>sceneName = ''Main''\<rparr>, \<lparr>sceneName = ''BRB''\<rparr>]\<rparr>)
        | SetInputMute n m \<Rightarrow>
            if n \<in> set mics then Inr empty_response
            else Inl (''No source was found by the name of '' @ n)
        | GetInputList \<Rightarrow> Inr (empty_response\<lparr>inputs := map (\<lambda>n. \<lparr>inputName = n\<rparr>) mics\<rparr>)
        | GetSceneItemId scene source \<Rightarrow> Inl ''600: No scene items were found by that name''
        | GetStats \<Rightarrow> Inl ''Request timed out''
        | _ \<Rightarrow> Inr empty_response)\<rparr>"

definition after_exhaustion :: "client \<times> event list" where
  \<comment> \<open>a fresh client and its trace after \<^verbatim>\<open>connect\<close> has given up\<close>
  "after_exhaustion = snd (connect refused_env new_client [])"

definition timed_out_env :: env where
  \<comment> \<open>a controller that does not answer in time\<close>
  "timed_out_env =
     \<lparr>handshake = (\<lambda>k. Inr \<lparr>obsWebSocketVersion = ''5.1.0'', negotiatedRpcVersion = 1\<rparr>),
      mathRandom = (\<lambda>k. 0),
      rpc = (\<lambda>k r. Inl ''Request timed out after 6000ms'')\<rparr>"

definition missing_item_env :: env where
  \<comment> \<open>a controller whose scenes hold no item of the name asked for\<close>
  "missing_item_env =
     \<lparr>handshake = (\<lambda>k. Inr \<lparr>obsWebSocketVersion = ''5.1.0'', negotiatedRpcVersion = 1\<rparr>),
      mathRandom = (\<lambda>k. 0),
      rpc = (\<lambda>k r. case r of
          GetSceneItemId scene source \<Rightarrow>
            Inl ''No scene items were found in the specified scene by that name or offset.''
        | _ \<Rightarrow> Inr empty_response)\<rparr>"

definition two_commands :: "sched list" where
  \<comment> \<open>a scene switch whose request fails, queued before a stream stop\<close>
  "two_commands =
     [Invoke (SetSceneOp ''Main''), Invoke StopStreamOp, Resume 0,
      Answer 0 (Inl ''socket hang up''), Finally 0, Resume 1]"

definition online :: client where
  \<comment> \<open>a client after a successful \<^verbatim>\<open>connect\<close>\<close>
  "online = new_client\<lparr>client.connected := True\<rparr>"

section \<open>Properties\<close>

subsection \<open>Strings\<close>

lemma str_includes_mid: "str_includes (a @ s @ b) s"
  unfolding str_includes_def sublist_def by blast

lemma str_includes_join: "s \<in> set xs \<Longrightarrow> str_includes (join xs sep) s"
proof (induction xs sep rule: join.induct)
  case (1 sep)
  then show ?case by simp
next
  case (2 x sep)
  then show ?case by (simp add: str_includes_def)
next
  case (3 x y ys sep)
  show ?case
  proof (cases "s = x")
    case True
    then show ?thesis using str_includes_mid [of "[]" x "sep @ join (y # ys) sep"] by simp
  next
    case False
    with 3 have "str_includes (join (y # ys) sep) s" by simp
    then show ?thesis
      unfolding str_includes_def by (simp add: sublist_append)
  qed
qed

lemma str_includes_trans:
  "str_includes a b \<Longrightarrow> str_includes b c \<Longrightarrow> str_includes a c"
  unfolding str_includes_def by (rule sublist_order.order_trans)

subsection \<open>Connecting\<close>

lemma handshakes_snoc [simp]: "handshakes (tr @ [Handshake]) = Suc (handshakes tr)"
  "handshakes (tr @ [Sleep d]) = handshakes tr" "handshakes [] = 0"
  by (simp_all add: handshakes_def)

lemma draws_snoc [simp]: "draws (tr @ [Handshake]) = draws tr"
  "draws (tr @ [Sleep d]) = Suc (draws tr)" "draws [] = 0"
  by (simp_all add: draws_def)

declare connect_loop.simps [simp del]

lemma connect_loop_skip:
  "maxRetries c < retryCount c \<Longrightarrow> connect_loop E c tr = (Inr (), c, tr)"
  by (subst connect_loop.simps) simp

lemma connect_loop_success:
  "retryCount c \<le> maxRetries c \<Longrightarrow> handshake E (handshakes tr) = Inr v \<Longrightarrow>
   connect_loop E c tr =
     (Inr (), c\<lparr>client.connected := True, connecting := False, retryCount := 0\<rparr>, tr @ [Handshake])"
  by (subst connect_loop.simps) simp

lemma connect_loop_auth:
  "retryCount c \<le> maxRetries c \<Longrightarrow> handshake E (handshakes tr) = Inl m \<Longrightarrow>
   classify m = Auth \<Longrightarrow>
   connect_loop E c tr =
     (Inl auth_failed, c\<lparr>retryCount := retryCount c + 1, connecting := False\<rparr>, tr @ [Handshake])"
  by (subst connect_loop.simps) (simp add: Let_def)

lemma connect_loop_last:
  "retryCount c = maxRetries c \<Longrightarrow> handshake E (handshakes tr) = Inl m \<Longrightarrow>
   classify m \<noteq> Auth \<Longrightarrow>
   connect_loop E c tr =
     (Inl (exhausted (maxRetries c) m),
      c\<lparr>retryCount := retryCount c + 1, connecting := False\<rparr>, tr @ [Handshake])"
  by (subst connect_loop.simps) (simp add: Let_def)

lemma connect_loop_retry:
  "retryCount c < maxRetries c \<Longrightarrow> handshake E (handshakes tr) = Inl m \<Longrightarrow>
   classify m \<noteq> Auth \<Longrightarrow>
   connect_loop E c tr =
     connect_loop E (c\<lparr>retryCount := retryCount c + 1\<rparr>)
       (tr @ [Handshake,
              Sleep (jittered (backoff (c\<lparr>retryCount := retryCount c + 1\<rparr>))
                       (mathRandom E (draws tr)))])"
  by (subst connect_loop.simps) (simp add: Let_def)

lemma connect_loop_exhausts:
  assumes fails: "\<And>k. handshake E k = Inl (msg k) \<and> classify (msg k) \<noteq> Auth"
  shows "maxRetries c - retryCount c = n \<Longrightarrow> retryCount c \<le> maxRetries c \<Longrightarrow>
    connect_loop E c tr =
      (Inl (exhausted (maxRetries c) (msg (handshakes tr + n))),
       c\<lparr>retryCount := maxRetries c + 1, connecting := False\<rparr>,
       tr @ concat (map (\<lambda>i. [Handshake,
              Sleep (jittered (min (baseDelay c * 2 ^ (retryCount c + i)) (maxDelay c))
                              (mathRandom E (draws tr + i)))]) [0..<n]) @ [Handshake])"
proof (induction n arbitrary: c tr)
  case 0
  then have eq: "retryCount c = maxRetries c" by simp
  show ?case
    using connect_loop_last [of c E tr "msg (handshakes tr)"] by (simp add: eq fails)
next
  case (Suc n)
  let ?c1 = "c\<lparr>retryCount := retryCount c + 1\<rparr>"
  let ?tr1 = "tr @ [Handshake, Sleep (jittered (backoff ?c1) (mathRandom E (draws tr)))]"
  have lt: "retryCount c < maxRetries c" using Suc.prems by simp
  have IH: "connect_loop E ?c1 ?tr1 = (Inl (exhausted (maxRetries ?c1) (msg (handshakes ?tr1 + n))),
       ?c1\<lparr>retryCount := maxRetries ?c1 + 1, connecting := False\<rparr>,
       ?tr1 @ concat (map (\<lambda>i. [Handshake,
              Sleep (jittered (min (baseDelay ?c1 * 2 ^ (retryCount ?c1 + i)) (maxDelay ?c1))
                              (mathRandom E (draws ?tr1 + i)))]) [0..<n]) @ [Handshake])"
    using Suc.prems by (intro Suc.IH) simp_all
  have unfold: "connect_loop E c tr = connect_loop E ?c1 ?tr1"
    using lt connect_loop_retry [of c E tr "msg (handshakes tr)"] by (simp add: fails)
  have upt: "[0..<Suc n] = 0 # map Suc [0..<n]"
    by (simp add: upt_conv_Cons map_Suc_upt del: upt_Suc)
  show ?case
    unfolding unfold IH upt
    by (simp add: backoff_def comp_def handshakes_def draws_def)
qed

lemma classify_refused_auth: "classify ''connect ECONNREFUSED auth.studio.lan:4455'' = Refused"
  by (simp add: classify_def str_includes_def sublist_code)

lemma classify_refused: "classify ''connect ECONNREFUSED 127.0.0.1:4455'' = Refused"
  by (simp add: classify_def str_includes_def sublist_code)

lemma upt_10: "[0..<10] = [0, 1, 2, 3, 4, 5, 6, 7, 8, 9::nat]"
  by (simp add: upt_conv_Cons del: upt_Suc)

lemma slept_retries:
  "slept (concat (map (\<lambda>i. [Handshake, Sleep (f i)]) ks) @ [Handshake]) = map f ks"
  by (induction ks) simp_all

lemma jittered_bounds:
  assumes "0 \<le> r" and "r < 1"
  shows "7 / 10 * of_nat d \<le> jittered d r" and "jittered d r \<le> 13 / 10 * of_nat d"
proof -
  have "(0::rat) \<le> of_nat d" by simp
  moreover have "7 / 10 \<le> 7 / 10 + r * (6 / 10)" using assms by simp
  ultimately have "of_nat d * (7 / 10) \<le> of_nat d * (7 / 10 + r * (6 / 10))"
    by (rule mult_left_mono [rotated])
  then show "7 / 10 * of_nat d \<le> jittered d r"
    by (simp add: jittered_def mult.commute)
  have "7 / 10 + r * (6 / 10) \<le> 13 / 10" using assms by simp
  with \<open>(0::rat) \<le> of_nat d\<close> have "of_nat d * (7 / 10 + r * (6 / 10)) \<le> of_nat d * (13 / 10)"
    by (rule mult_left_mono [rotated])
  then show "jittered d r \<le> 13 / 10 * of_nat d"
    by (simp add: jittered_def mult.commute)
qed

text \<open>
  Claim C2, as the code has it. On a fresh client whose first handshake is rejected with
  a message that contains \<^verbatim>\<open>Authentication\<close> or \<^verbatim>\<open>auth\<close> and does not contain
  \<^verbatim>\<open>ECONNREFUSED\<close>, \<^verbatim>\<open>connect\<close> throws the \<^verbatim>\<open>AUTH_FAILED\<close> error after exactly one
  handshake: the trace holds that handshake and no sleep, and the client is neither
  connected nor connecting.
\<close>

theorem connect_auth_fails_once:
  assumes "handshake E 0 = Inl msg"
    and "\<not> str_includes msg ''ECONNREFUSED''"
    and "str_includes msg ''Authentication'' \<or> str_includes msg ''auth''"
  shows "connect E new_client [] =
           (Inl auth_failed, new_client\<lparr>retryCount := 1\<rparr>, [Handshake])"
proof -
  let ?c = "new_client\<lparr>connecting := True\<rparr>"
  have auth: "classify msg = Auth"
    using assms(2,3) by (simp add: classify_def)
  have "connect E new_client [] = connect_loop E ?c []"
    by (simp add: connect_def new_client_def)
  also have "\<dots> = (Inl auth_failed, ?c\<lparr>retryCount := retryCount ?c + 1, connecting := False\<rparr>,
      [] @ [Handshake])"
    using assms(1) auth by (intro connect_loop_auth) (simp_all add: new_client_def)
  finally show ?thesis by (simp add: new_client_def)
qed

text \<open>
  An instance: the server rejects the password.
\<close>

theorem connect_auth_fails_once_witness:
  "handshake wrong_password_env 0 = Inl ''Authentication failed.'' \<and>
   \<not> str_includes ''Authentication failed.'' ''ECONNREFUSED'' \<and>
   str_includes ''Authentication failed.'' ''Authentication'' \<and>
   connect wrong_password_env new_client [] =
     (Inl ''AUTH_FAILED: OBS WebSocket password is incorrect'', new_client\<lparr>retryCount := 1\<rparr>,
      [Handshake])"
proof -
  have a: "handshake wrong_password_env 0 = Inl ''Authentication failed.''"
    by (simp add: wrong_password_env_def)
  have b: "\<not> str_includes ''Authentication failed.'' ''ECONNREFUSED''"
    by (simp add: str_includes_def sublist_code)
  have c: "str_includes ''Authentication failed.'' ''Authentication''"
    by (simp add: str_includes_def sublist_code)
  from c have d: "str_includes ''Authentication failed.'' ''Authentication'' \<or>
      str_includes ''Authentication failed.'' ''auth''" ..
  show ?thesis
    using a b c connect_auth_fails_once [OF a b d] by (simp add: auth_failed_def)
qed

text \<open>
  Claim C2 as stated fails: a refusal whose message contains \<^verbatim>\<open>auth\<close> (here in the host
  name) is classified by its \<^verbatim>\<open>ECONNREFUSED\<close> first, so \<^verbatim>\<open>connect\<close> sleeps, retries
  and, with the second handshake accepted, returns connected.
\<close>

theorem connect_auth_counterexample:
  "handshake refused_auth_env 0 = Inl ''connect ECONNREFUSED auth.studio.lan:4455'' \<and>
   str_includes ''connect ECONNREFUSED auth.studio.lan:4455'' ''auth'' \<and>
   connect refused_auth_env new_client [] =
     (Inr (), new_client\<lparr>client.connected := True\<rparr>, [Handshake, Sleep 700, Handshake])"
proof -
  let ?m = "''connect ECONNREFUSED auth.studio.lan:4455''"
  have inc: "str_includes ?m ''auth''"
    by (simp add: str_includes_def sublist_code)
  have "connect refused_auth_env new_client [] =
      connect_loop refused_auth_env (new_client\<lparr>connecting := True\<rparr>) []"
    by (simp add: connect_def new_client_def)
  also have "\<dots> = connect_loop refused_auth_env (new_client\<lparr>connecting := True, retryCount := 1\<rparr>)
      [Handshake, Sleep 700]"
    using connect_loop_retry [of "new_client\<lparr>connecting := True\<rparr>" refused_auth_env "[]" ?m]
    by (simp add: classify_refused_auth new_client_def refused_auth_env_def jittered_def backoff_def)
  also have "\<dots> = (Inr (), new_client\<lparr>client.connected := True\<rparr>, [Handshake, Sleep 700, Handshake])"
    using connect_loop_success [of "new_client\<lparr>connecting := True, retryCount := 1\<rparr>" refused_auth_env
       "[Handshake, Sleep 700]"]
    by (simp add: new_client_def refused_auth_env_def handshakes_def)
  finally show ?thesis using inc by (simp add: refused_auth_env_def)
qed

text \<open>
  Claim C3, as the code has it. On a fresh client, when every handshake is rejected with
  a message that is not classified as an authentication failure, \<^verbatim>\<open>connect\<close> makes 11
  handshake attempts (the first and \<^verbatim>\<open>maxRetries = 10\<close> retries) and sleeps before each
  retry; the \<open>i\<close>-th sleep lasts \<open>min (1000 * 2 ^ i) 30000\<close> milliseconds (\<open>i\<close> from 0)
  times a factor \<open>0.7 + 0.6 * r\<close> with \<open>r\<close> the draw in \<open>[0, 1)\<close>, hence between 0.7
  and 1.3 times that delay. The delays before jitter are non-decreasing, and so are
  the first six slept delays; from the sixth on the delay before jitter is the cap and
  nothing orders the slept ones. It then throws the error that carries the last message,
  and the client is neither connected nor connecting.
\<close>

theorem connect_refused_exhausts:
  assumes fails: "\<And>k. handshake E k = Inl (msg k) \<and> classify (msg k) \<noteq> Auth"
    and rnd: "\<And>k. 0 \<le> mathRandom E k \<and> mathRandom E k < 1"
  shows "\<exists>c tr. connect E new_client [] = (Inl (exhausted 10 (msg 10)), c, tr) \<and>
      str_includes (exhausted 10 (msg 10)) (msg 10) \<and>
      \<not> client.connected c \<and> \<not> connecting c \<and>
      tr = concat (map (\<lambda>i. [Handshake,
              Sleep (jittered (backoff (new_client\<lparr>retryCount := i + 1\<rparr>)) (mathRandom E i))])
              [0..<10]) @ [Handshake] \<and>
      handshakes tr = 11 \<and>
      slept tr = map (\<lambda>i. jittered (backoff (new_client\<lparr>retryCount := i + 1\<rparr>)) (mathRandom E i))
                   [0..<10] \<and>
      (\<forall>i<10. 7 / 10 * of_nat (backoff (new_client\<lparr>retryCount := i + 1\<rparr>)) \<le> slept tr ! i \<and>
               slept tr ! i \<le> 13 / 10 * of_nat (backoff (new_client\<lparr>retryCount := i + 1\<rparr>))) \<and>
      sorted (map (\<lambda>i. backoff (new_client\<lparr>retryCount := i + 1\<rparr>)) [0..<10]) \<and>
      sorted (take 6 (slept tr))"
proof -
  let ?b = "\<lambda>i. backoff (new_client\<lparr>retryCount := i + 1\<rparr>)"
  let ?d = "\<lambda>i. jittered (?b i) (mathRandom E i)"
  let ?tr = "concat (map (\<lambda>i. [Handshake, Sleep (?d i)]) [0..<10]) @ [Handshake]"
  let ?c = "new_client\<lparr>connecting := True\<rparr>"
  have "connect E new_client [] = connect_loop E ?c []"
    by (simp add: connect_def new_client_def)
  also have "\<dots> = (Inl (exhausted 10 (msg 10)),
       ?c\<lparr>retryCount := maxRetries ?c + 1, connecting := False\<rparr>, ?tr)"
    using connect_loop_exhausts [of E msg ?c 10 "[]"] fails
    by (simp add: new_client_def backoff_def)
  finally have run: "connect E new_client [] = (Inl (exhausted 10 (msg 10)),
       ?c\<lparr>retryCount := maxRetries ?c + 1, connecting := False\<rparr>, ?tr)" .
  have sl: "slept ?tr = map ?d [0..<10]"
    by (rule slept_retries)
  have hs: "handshakes ?tr = 11"
    by (simp add: handshakes_def upt_10)
  have bounds: "\<forall>i<10. 7 / 10 * of_nat (?b i) \<le> slept ?tr ! i \<and> slept ?tr ! i \<le> 13 / 10 * of_nat (?b i)"
    unfolding sl using jittered_bounds rnd by simp
  have bases: "map ?b [0..<10] = [1000, 2000, 4000, 8000, 16000, 30000, 30000, 30000, 30000, 30000]"
    by (simp add: upt_10 backoff_def new_client_def)
  have sorted_bases: "sorted (map ?b [0..<10])"
    unfolding bases by simp
  have r: "0 \<le> mathRandom E 0" "mathRandom E 0 < 1" "0 \<le> mathRandom E 1" "mathRandom E 1 < 1"
      "0 \<le> mathRandom E 2" "mathRandom E 2 < 1" "0 \<le> mathRandom E 3" "mathRandom E 3 < 1"
      "0 \<le> mathRandom E 4" "mathRandom E 4 < 1" "0 \<le> mathRandom E 5" "mathRandom E 5 < 1"
    using rnd by simp_all
  have sorted6: "sorted (take 6 (slept ?tr))"
    unfolding sl upt_10 using r
    by (simp add: jittered_def backoff_def new_client_def)
  have carries: "str_includes (exhausted 10 (msg 10)) (msg 10)"
    unfolding exhausted_def
    using str_includes_mid [of "''Failed to connect after '' @ show_nat 10 @
       '' attempts. Last error: ''" "msg 10" "[]"]
    by (simp del: show_nat.simps)
  show ?thesis
    using run carries sl hs bounds sorted_bases sorted6 by (simp add: new_client_def)
qed

lemma show_nat_10: "show_nat 10 = ''10''"
  by (simp add: digit_def)

text \<open>
  An instance: nothing listens on the port.
\<close>

theorem connect_refused_exhausts_witness:
  "classify ''connect ECONNREFUSED 127.0.0.1:4455'' \<noteq> Auth \<and>
   fst (connect refused_env new_client []) =
     Inl ''Failed to connect after 10 attempts. Last error: connect ECONNREFUSED 127.0.0.1:4455'' \<and>
   handshakes (snd (snd (connect refused_env new_client []))) = 11 \<and>
   \<not> client.connected (fst (snd (connect refused_env new_client [])))"
proof -
  have a: "\<And>k. handshake refused_env k = Inl ((\<lambda>k. ''connect ECONNREFUSED 127.0.0.1:4455'') k) \<and>
      classify ((\<lambda>k. ''connect ECONNREFUSED 127.0.0.1:4455'') k) \<noteq> Auth"
    by (simp add: refused_env_def classify_refused)
  have b: "\<And>k. 0 \<le> mathRandom refused_env k \<and> mathRandom refused_env k < 1"
    by (simp add: refused_env_def)
  from connect_refused_exhausts [OF a b] obtain c tr where
    run: "connect refused_env new_client [] =
      (Inl (exhausted 10 ''connect ECONNREFUSED 127.0.0.1:4455''), c, tr)"
    and off: "\<not> client.connected c" and hs: "handshakes tr = 11"
    by blast
  have msg: "exhausted 10 ''connect ECONNREFUSED 127.0.0.1:4455'' =
      ''Failed to connect after 10 attempts. Last error: connect ECONNREFUSED 127.0.0.1:4455''"
    by (simp add: exhausted_def show_nat_10 del: show_nat.simps)
  show ?thesis
    unfolding run msg using off hs classify_refused by simp
qed

text \<open>
  Claim C3 as stated fails in its ordering of the slept delays: with the draws 0.5 before
  the sixth sleep and 0 before the seventh, both at the cap, the client sleeps 30000 ms and
  then 21000 ms.
\<close>

theorem connect_refused_counterexample:
  "classify ''connect ECONNREFUSED 127.0.0.1:4455'' = Refused \<and>
   slept (snd (snd (connect refused_env new_client []))) =
     [700, 1400, 2800, 5600, 11200, 30000, 21000, 21000, 21000, 21000] \<and>
   \<not> sorted (slept (snd (snd (connect refused_env new_client []))))"
proof -
  have "connect refused_env new_client [] =
      connect_loop refused_env (new_client\<lparr>connecting := True\<rparr>) []"
    by (simp add: connect_def new_client_def)
  then have "slept (snd (snd (connect refused_env new_client []))) =
      map (\<lambda>i. jittered (min (1000 * 2 ^ i) 30000) (mathRandom refused_env i)) [0..<10]"
    using connect_loop_exhausts [of refused_env "\<lambda>k. ''connect ECONNREFUSED 127.0.0.1:4455''"
        "new_client\<lparr>connecting := True\<rparr>" 10 "[]"] classify_refused
    by (simp add: new_client_def refused_env_def slept_retries)
  also have "\<dots> = [700, 1400, 2800, 5600, 11200, 30000, 21000, 21000, 21000, 21000]"
    by (simp add: upt_10 jittered_def refused_env_def)
  finally show ?thesis using classify_refused by simp
qed

subsection \<open>Operations running alone\<close>

lemma calls_snoc [simp]: "calls (tr @ [Call r]) = Suc (calls tr)" "calls [] = 0"
  by (simp_all add: calls_def)

lemma run_bind:
  "run E (bind_prog p f) tr =
     (case run E p tr of (Inl e, tr') \<Rightarrow> (Inl e, tr') | (Inr x, tr') \<Rightarrow> run E (f x) tr')"
  by (induction p arbitrary: tr) simp_all

lemma run_catch:
  "run E (catch_prog p h) tr =
     (case run E p tr of (Inl e, tr') \<Rightarrow> run E (h e) tr' | (Inr x, tr') \<Rightarrow> (Inr x, tr'))"
  by (induction p arbitrary: tr) simp_all

lemma run_obs_call: "run E (obs_call r) tr = (rpc E (calls tr) r, tr @ [Call r])"
  by (cases "rpc E (calls tr) r") (simp_all add: obs_call_def)

lemma run_ensureConnected:
  "run E (ensureConnected c) tr = (if client.connected c then Inr () else Inl not_connected, tr)"
  by (simp add: ensureConnected_def)

text \<open>
  Claim C4. On a connected client with safe mode enabled, when the controller answers
  \<^verbatim>\<open>GetCurrentProgramScene\<close> with a scene that is not in the allow-list, \<^verbatim>\<open>startStream\<close>
  returns \<^verbatim>\<open>{success: false}\<close> with a message that contains the scene and the joined
  allow-list (hence each of its names), and the only request sent is
  \<^verbatim>\<open>GetCurrentProgramScene\<close>: neither \<^verbatim>\<open>GetStreamStatus\<close> nor \<^verbatim>\<open>StartStream\<close>.
\<close>

theorem startStream_safe_mode_refuses:
  assumes "client.connected c" and "SAFE_MODE cfg"
    and "rpc E (calls tr) GetCurrentProgramScene = Inr res"
    and "currentProgramSceneName res \<notin> set (SAFE_SCENES cfg)"
  shows "run E (startStream cfg c) tr =
           (Inr (result False (safe_mode_refusal cfg (currentProgramSceneName res))),
            tr @ [Call GetCurrentProgramScene]) \<and>
         \<not> success (result False (safe_mode_refusal cfg (currentProgramSceneName res))) \<and>
         str_includes (safe_mode_refusal cfg (currentProgramSceneName res))
           (currentProgramSceneName res) \<and>
         str_includes (safe_mode_refusal cfg (currentProgramSceneName res))
           (join (SAFE_SCENES cfg) '', '') \<and>
         (\<forall>s \<in> set (SAFE_SCENES cfg).
            str_includes (safe_mode_refusal cfg (currentProgramSceneName res)) s)"
proof -
  let ?scene = "currentProgramSceneName res"
  have run: "run E (startStream cfg c) tr =
      (Inr (result False (safe_mode_refusal cfg ?scene)), tr @ [Call GetCurrentProgramScene])"
    using assms
    by (simp add: startStream_def getCurrentScene_def run_bind run_obs_call run_ensureConnected)
  have a: "str_includes (safe_mode_refusal cfg ?scene) ?scene"
    unfolding safe_mode_refusal_def by (rule str_includes_mid)
  have b: "str_includes (safe_mode_refusal cfg ?scene) (join (SAFE_SCENES cfg) '', '')"
    unfolding safe_mode_refusal_def
    using str_includes_mid [of "''SAFE_MODE: Refusing to start stream. Current scene \"'' @ ?scene @
     ''\" is not in safe list [''" "join (SAFE_SCENES cfg) '', ''"]
    by simp
  have c: "\<forall>s \<in> set (SAFE_SCENES cfg). str_includes (safe_mode_refusal cfg ?scene) s"
    using b str_includes_join str_includes_trans by blast
  show ?thesis using run a b c by (simp add: result_def)
qed

text \<open>
  An instance: the default allow-list, and a controller showing \<^verbatim>\<open>BRB\<close>.
\<close>

theorem startStream_safe_mode_refuses_witness:
  "run (studio []) (startStream default_config online) [] =
     (Inr (result False
        ''SAFE_MODE: Refusing to start stream. Current scene \"BRB\" is not in safe list [StartingSoon, Main]. Switch to an approved scene first.''),
      [Call GetCurrentProgramScene])"
proof -
  let ?res = "empty_response\<lparr>currentProgramSceneName := ''BRB''\<rparr>"
  have a: "client.connected online"
    by (simp add: online_def)
  have b: "SAFE_MODE default_config"
    by (simp add: default_config_def)
  have c: "rpc (studio []) (calls []) GetCurrentProgramScene = Inr ?res"
    by (simp add: studio_def)
  have d: "currentProgramSceneName ?res \<notin> set (SAFE_SCENES default_config)"
    by (simp add: default_config_def)
  from startStream_safe_mode_refuses [OF a b c d] show ?thesis
    by (simp add: safe_mode_refusal_def default_config_def)
qed

text \<open>
  Claim C5. On a connected client, when the controller answers \<^verbatim>\<open>GetSceneList\<close> and the
  name is not among the scenes of the answer, \<^verbatim>\<open>setScene\<close> returns (it does not throw)
  \<^verbatim>\<open>{success: false}\<close> with a message that contains the joined list of the scenes of
  the answer, and the only request sent is \<^verbatim>\<open>GetSceneList\<close>: no
  \<^verbatim>\<open>SetCurrentProgramScene\<close>.
\<close>

theorem setScene_unknown_scene:
  assumes "client.connected c"
    and "rpc E (calls tr) GetSceneList = Inr res"
    and "name \<notin> set (map sceneName (scenes res))"
  shows "run E (setScene name c) tr =
           (Inr (result False (scene_not_found name (map sceneName (scenes res)))),
            tr @ [Call GetSceneList]) \<and>
         \<not> success (result False (scene_not_found name (map sceneName (scenes res)))) \<and>
         str_includes (scene_not_found name (map sceneName (scenes res)))
           (join (map sceneName (scenes res)) '', '') \<and>
         (\<forall>s \<in> set (map sceneName (scenes res)).
            str_includes (scene_not_found name (map sceneName (scenes res))) s)"
proof -
  let ?names = "map sceneName (scenes res)"
  have run: "run E (setScene name c) tr =
      (Inr (result False (scene_not_found name ?names)), tr @ [Call GetSceneList])"
    using assms
    by (simp add: setScene_def getSceneList_def run_bind run_obs_call run_ensureConnected)
  have b: "str_includes (scene_not_found name ?names) (join ?names '', '')"
    unfolding scene_not_found_def
    using str_includes_mid [of "''SCENE_NOT_FOUND: Scene \"'' @ name @
       ''\" does not exist. Available: [''" "join ?names '', ''"]
    by simp
  have c: "\<forall>s \<in> set ?names. str_includes (scene_not_found name ?names) s"
    using b str_includes_join str_includes_trans by blast
  show ?thesis using run b c by (simp add: result_def)
qed

text \<open>
  An instance: the controller has no scene \<^verbatim>\<open>Intro\<close>.
\<close>

theorem setScene_unknown_scene_witness:
  "run (studio []) (setScene ''Intro'' online) [] =
     (Inr (result False
        ''SCENE_NOT_FOUND: Scene \"Intro\" does not exist. Available: [StartingSoon, Main, BRB]''),
      [Call GetSceneList])"
proof -
  let ?res = "empty_response\<lparr>scenes :=
      [\<lparr>sceneName = ''StartingSoon''\<rparr>, \<lparr>sceneName = ''Main''\<rparr>, \<lparr>sceneName = ''BRB''\<rparr>]\<rparr>"
  have a: "client.connected online"
    by (simp add: online_def)
  have b: "rpc (studio []) (calls []) GetSceneList = Inr ?res"
    by (simp add: studio_def)
  have c: "''Intro'' \<notin> set (map sceneName (scenes ?res))"
    by simp
  from setScene_unknown_scene [OF a b c] show ?thesis
    by (simp add: scene_not_found_def)
qed

lemma calls_append_mics [simp]:
  "calls (tr @ map (\<lambda>n. Call (SetInputMute n mute)) names) = calls tr + length names"
  by (induction names arbitrary: tr) (simp_all add: calls_def)

lemma run_try_one:
  "run E (try_mics mute (name # names) after) tr =
     (case rpc E (calls tr) (SetInputMute name mute) of
        Inr v \<Rightarrow> (Inr (result True (muted_message name mute)), tr @ [Call (SetInputMute name mute)])
      | Inl e \<Rightarrow> run E (try_mics mute names after) (tr @ [Call (SetInputMute name mute)]))"
  by (simp add: run_bind run_catch run_obs_call split: sum.splits)

lemma run_try_mics_accept:
  assumes "j < length names"
    and "\<forall>i<j. isl (rpc E (calls tr + i) (SetInputMute (names ! i) mute))"
    and "rpc E (calls tr + j) (SetInputMute (names ! j) mute) = Inr v"
  shows "run E (try_mics mute names after) tr =
           (Inr (result True (muted_message (names ! j) mute)),
            tr @ map (\<lambda>n. Call (SetInputMute n mute)) (take (Suc j) names))"
  using assms
proof (induction names arbitrary: j tr)
  case Nil
  then show ?case by simp
next
  case (Cons name names)
  show ?case
  proof (cases j)
    case 0
    with Cons.prems show ?thesis by (simp add: run_try_one del: try_mics.simps)
  next
    case (Suc j')
    from Cons.prems Suc have first: "isl (rpc E (calls tr) (SetInputMute name mute))"
      by (metis add.right_neutral nth_Cons_0 zero_less_Suc)
    let ?tr = "tr @ [Call (SetInputMute name mute)]"
    have "run E (try_mics mute names after) ?tr =
       (Inr (result True (muted_message (names ! j') mute)),
        ?tr @ map (\<lambda>n. Call (SetInputMute n mute)) (take (Suc j') names))"
    proof (rule Cons.IH)
      show "j' < length names" using Cons.prems Suc by simp
      show "\<forall>i<j'. isl (rpc E (calls ?tr + i) (SetInputMute (names ! i) mute))"
      proof (intro allI impI)
        fix i assume "i < j'"
        then have "Suc i < j" using Suc by simp
        with Cons.prems(2) have "isl (rpc E (calls tr + Suc i) (SetInputMute ((name # names) ! Suc i) mute))"
          by blast
        then show "isl (rpc E (calls ?tr + i) (SetInputMute (names ! i) mute))" by simp
      qed
      show "rpc E (calls ?tr + j') (SetInputMute (names ! j') mute) = Inr v"
        using Cons.prems(3) Suc by simp
    qed
    moreover from first obtain e where "rpc E (calls tr) (SetInputMute name mute) = Inl e"
      by (auto simp: isl_def)
    ultimately show ?thesis using Suc
      by (simp add: run_try_one del: try_mics.simps)
  qed
qed

lemma run_try_mics_reject:
  assumes "\<forall>i<length names. isl (rpc E (calls tr + i) (SetInputMute (names ! i) mute))"
  shows "run E (try_mics mute names after) tr =
           run E after (tr @ map (\<lambda>n. Call (SetInputMute n mute)) names)"
  using assms
proof (induction names arbitrary: tr)
  case Nil
  then show ?case by simp
next
  case (Cons name names)
  from Cons.prems have first: "isl (rpc E (calls tr) (SetInputMute name mute))"
    by (metis add.right_neutral length_greater_0_conv list.distinct(1) nth_Cons_0)
  let ?tr = "tr @ [Call (SetInputMute name mute)]"
  have "\<forall>i<length names. isl (rpc E (calls ?tr + i) (SetInputMute (names ! i) mute))"
  proof (intro allI impI)
    fix i assume "i < length names"
    then have "Suc i < length (name # names)" by simp
    with Cons.prems have "isl (rpc E (calls tr + Suc i) (SetInputMute ((name # names) ! Suc i) mute))"
      by blast
    then show "isl (rpc E (calls ?tr + i) (SetInputMute (names ! i) mute))" by simp
  qed
  then have "run E (try_mics mute names after) ?tr =
      run E after (?tr @ map (\<lambda>n. Call (SetInputMute n mute)) names)"
    by (rule Cons.IH)
  moreover from first obtain e where "rpc E (calls tr) (SetInputMute name mute) = Inl e"
    by (auto simp: isl_def)
  ultimately show ?case
    by (simp add: run_try_one del: try_mics.simps)
qed

lemma mic_not_found_lists:
  "str_includes (mic_not_found tried available) (join tried '', '')"
  "str_includes (mic_not_found tried available) (join available '', '')"
proof -
  show "str_includes (mic_not_found tried available) (join tried '', '')"
    unfolding mic_not_found_def
    using str_includes_mid [of "''MIC_NOT_FOUND: Could not find mic input. Tried: [''" "join tried '', ''"]
    by simp
  show "str_includes (mic_not_found tried available) (join available '', '')"
    unfolding mic_not_found_def
    using str_includes_mid [of "''MIC_NOT_FOUND: Could not find mic input. Tried: ['' @ join tried '', '' @
     '']. Available inputs: [''" "join available '', ''"]
    by simp
qed

text \<open>
  Claim C7, as the code has it. On a connected client the candidates are the six
  fallback names in their fixed order when no name is given or the name given is the empty
  string, and the given name alone when it is not the empty string. \<^verbatim>\<open>setMicMute\<close> sends \<^verbatim>\<open>SetInputMute\<close> for the candidates in
  order and stops at the first one the controller accepts, returning
  \<^verbatim>\<open>{success: true}\<close> for that name. When the controller rejects every candidate and
  answers \<^verbatim>\<open>GetInputList\<close>, the result is \<^verbatim>\<open>{success: false}\<close> with a message that contains
  the joined candidates and the joined input names of the answer.
\<close>

theorem setMicMute_candidates:
  assumes "client.connected c"
  shows "micNames None = [''Mic/Aux'', ''Blue Yeti'', ''Microphone'', ''Mic'',
           ''Audio Input Capture'', ''Desktop Audio''] \<and>
         micNames (Some []) = [''Mic/Aux'', ''Blue Yeti'', ''Microphone'', ''Mic'',
           ''Audio Input Capture'', ''Desktop Audio''] \<and>
         (n \<noteq> [] \<longrightarrow> micNames (Some n) = [n]) \<and>
         (j < length (micNames given) \<and>
          (\<forall>i<j. isl (rpc E (calls tr + i) (SetInputMute (micNames given ! i) mute))) \<and>
          rpc E (calls tr + j) (SetInputMute (micNames given ! j) mute) = Inr v \<longrightarrow>
            run E (setMicMute mute given c) tr =
              (Inr (result True (muted_message (micNames given ! j) mute)),
               tr @ map (\<lambda>n. Call (SetInputMute n mute)) (take (Suc j) (micNames given)))) \<and>
         ((\<forall>i<length (micNames given).
              isl (rpc E (calls tr + i) (SetInputMute (micNames given ! i) mute))) \<and>
          rpc E (calls tr + length (micNames given)) GetInputList = Inr res \<longrightarrow>
            run E (setMicMute mute given c) tr =
              (Inr (result False (mic_not_found (micNames given) (map inputName (inputs res)))),
               tr @ map (\<lambda>n. Call (SetInputMute n mute)) (micNames given) @ [Call GetInputList]) \<and>
            str_includes (mic_not_found (micNames given) (map inputName (inputs res)))
              (join (micNames given) '', '') \<and>
            str_includes (mic_not_found (micNames given) (map inputName (inputs res)))
              (join (map inputName (inputs res)) '', ''))"
proof (intro conjI impI)
  show "micNames None = [''Mic/Aux'', ''Blue Yeti'', ''Microphone'', ''Mic'',
           ''Audio Input Capture'', ''Desktop Audio'']"
    by (simp add: micNames_def fallback_mics_def)
  show "micNames (Some []) = [''Mic/Aux'', ''Blue Yeti'', ''Microphone'', ''Mic'',
           ''Audio Input Capture'', ''Desktop Audio'']"
    by (simp add: micNames_def fallback_mics_def)
  show "micNames (Some n) = [n]" if "n \<noteq> []"
    using that by (simp add: micNames_def)
  show "run E (setMicMute mute given c) tr =
              (Inr (result True (muted_message (micNames given ! j) mute)),
               tr @ map (\<lambda>n. Call (SetInputMute n mute)) (take (Suc j) (micNames given)))"
    if "j < length (micNames given) \<and>
          (\<forall>i<j. isl (rpc E (calls tr + i) (SetInputMute (micNames given ! i) mute))) \<and>
          rpc E (calls tr + j) (SetInputMute (micNames given ! j) mute) = Inr v"
    using that assms run_try_mics_accept [of j "micNames given" E tr mute v]
    by (simp add: setMicMute_def run_bind run_ensureConnected)
next
  assume h: "(\<forall>i<length (micNames given).
              isl (rpc E (calls tr + i) (SetInputMute (micNames given ! i) mute))) \<and>
          rpc E (calls tr + length (micNames given)) GetInputList = Inr res"
  then show "run E (setMicMute mute given c) tr =
              (Inr (result False (mic_not_found (micNames given) (map inputName (inputs res)))),
               tr @ map (\<lambda>n. Call (SetInputMute n mute)) (micNames given) @ [Call GetInputList])"
    using assms run_try_mics_reject [of "micNames given" E tr mute]
    by (simp add: setMicMute_def run_bind run_ensureConnected run_obs_call)
  show "str_includes (mic_not_found (micNames given) (map inputName (inputs res)))
              (join (micNames given) '', '')"
    by (rule mic_not_found_lists)
  show "str_includes (mic_not_found (micNames given) (map inputName (inputs res)))
              (join (map inputName (inputs res)) '', '')"
    by (rule mic_not_found_lists)
qed

lemma rpc_studio_mute:
  "rpc (studio mics) k (SetInputMute n m) =
     (if n \<in> set mics then Inr empty_response
      else Inl (''No source was found by the name of '' @ n))"
  by (simp add: studio_def)

text \<open>
  Instances: the third fallback name is accepted; no fallback name is accepted; a name is
  given and accepted; the empty string is given and the second fallback name is accepted.
\<close>

theorem setMicMute_candidates_witness:
  "run (studio [''Microphone'', ''Desktop Audio'']) (setMicMute True None online) [] =
     (Inr (result True ''Microphone muted''),
      [Call (SetInputMute ''Mic/Aux'' True), Call (SetInputMute ''Blue Yeti'' True),
       Call (SetInputMute ''Microphone'' True)]) \<and>
   run (studio [''Webcam Mic'']) (setMicMute True None online) [] =
     (Inr (result False
        ''MIC_NOT_FOUND: Could not find mic input. Tried: [Mic/Aux, Blue Yeti, Microphone, Mic, Audio Input Capture, Desktop Audio]. Available inputs: [Webcam Mic]''),
      [Call (SetInputMute ''Mic/Aux'' True), Call (SetInputMute ''Blue Yeti'' True),
       Call (SetInputMute ''Microphone'' True), Call (SetInputMute ''Mic'' True),
       Call (SetInputMute ''Audio Input Capture'' True),
       Call (SetInputMute ''Desktop Audio'' True), Call GetInputList]) \<and>
   run (studio [''Webcam Mic'']) (setMicMute False (Some ''Webcam Mic'') online) [] =
     (Inr (result True ''Webcam Mic unmuted''), [Call (SetInputMute ''Webcam Mic'' False)]) \<and>
   run (studio [''Blue Yeti'']) (setMicMute False (Some []) online) [] =
     (Inr (result True ''Blue Yeti unmuted''),
      [Call (SetInputMute ''Mic/Aux'' False), Call (SetInputMute ''Blue Yeti'' False)])"
proof -
  have on: "client.connected online"
    by (simp add: online_def)
  have names: "micNames None = [''Mic/Aux'', ''Blue Yeti'', ''Microphone'', ''Mic'',
      ''Audio Input Capture'', ''Desktop Audio'']"
    by (simp add: micNames_def fallback_mics_def)
  have given: "micNames (Some ''Webcam Mic'') = [''Webcam Mic'']"
    by (simp add: micNames_def)
  have first: "run (studio [''Microphone'', ''Desktop Audio'']) (setMicMute True None online) [] =
     (Inr (result True ''Microphone muted''),
      [Call (SetInputMute ''Mic/Aux'' True), Call (SetInputMute ''Blue Yeti'' True),
       Call (SetInputMute ''Microphone'' True)])"
    using setMicMute_candidates [OF on, of _ 2 None "studio [''Microphone'', ''Desktop Audio'']" "[]"
        True empty_response]
    by (simp add: names rpc_studio_mute muted_message_def All_less_Suc eval_nat_numeral)
  have inputs: "rpc (studio [''Webcam Mic'']) 6 GetInputList =
      Inr (empty_response\<lparr>inputs := [\<lparr>inputName = ''Webcam Mic''\<rparr>]\<rparr>)"
    by (simp add: studio_def)
  have none: "run (studio [''Webcam Mic'']) (setMicMute True None online) [] =
     (Inr (result False (mic_not_found (micNames None) [''Webcam Mic''])),
      [Call (SetInputMute ''Mic/Aux'' True), Call (SetInputMute ''Blue Yeti'' True),
       Call (SetInputMute ''Microphone'' True), Call (SetInputMute ''Mic'' True),
       Call (SetInputMute ''Audio Input Capture'' True),
       Call (SetInputMute ''Desktop Audio'' True), Call GetInputList])"
    using setMicMute_candidates [OF on, of _ _ None "studio [''Webcam Mic'']" "[]" True _
        "empty_response\<lparr>inputs := [\<lparr>inputName = ''Webcam Mic''\<rparr>]\<rparr>"] inputs
    by (simp add: names rpc_studio_mute All_less_Suc eval_nat_numeral)
  have explicit: "run (studio [''Webcam Mic'']) (setMicMute False (Some ''Webcam Mic'') online) [] =
     (Inr (result True ''Webcam Mic unmuted''), [Call (SetInputMute ''Webcam Mic'' False)])"
    using setMicMute_candidates [OF on, of _ 0 "Some ''Webcam Mic''" "studio [''Webcam Mic'']" "[]"
        False empty_response]
    by (simp add: given rpc_studio_mute muted_message_def)
  have empty_names: "micNames (Some []) = [''Mic/Aux'', ''Blue Yeti'', ''Microphone'', ''Mic'',
      ''Audio Input Capture'', ''Desktop Audio'']"
    using setMicMute_candidates [OF on] by blast
  have empty: "run (studio [''Blue Yeti'']) (setMicMute False (Some []) online) [] =
     (Inr (result True ''Blue Yeti unmuted''),
      [Call (SetInputMute ''Mic/Aux'' False), Call (SetInputMute ''Blue Yeti'' False)])"
    using setMicMute_candidates [OF on, of _ 1 "Some []" "studio [''Blue Yeti'']" "[]"
        False empty_response]
    by (simp add: empty_names rpc_studio_mute muted_message_def)
  show ?thesis
    using first none explicit empty by (simp add: names mic_not_found_def)
qed

text \<open>
  Claim C7 as stated fails twice. For the explicit name \<^verbatim>\<open>""\<close> the empty string is
  falsy, the fallback list is tried instead, and an input the caller did not name is
  muted. And when every candidate is rejected and \<^verbatim>\<open>GetInputList\<close> is rejected too, the
  call does not return \<^verbatim>\<open>{success: false}\<close>: the rejection of \<^verbatim>\<open>GetInputList\<close> is thrown.
\<close>

theorem setMicMute_counterexample:
  "run (studio [''Mic/Aux'']) (setMicMute True (Some []) online) [] =
     (Inr (result True ''Mic/Aux muted''), [Call (SetInputMute ''Mic/Aux'' True)]) \<and>
   run refused_env (setMicMute True None online) [] =
     (Inl ''Not connected'',
      [Call (SetInputMute ''Mic/Aux'' True), Call (SetInputMute ''Blue Yeti'' True),
       Call (SetInputMute ''Microphone'' True), Call (SetInputMute ''Mic'' True),
       Call (SetInputMute ''Audio Input Capture'' True),
       Call (SetInputMute ''Desktop Audio'' True), Call GetInputList])"
proof -
  have a: "run (studio [''Mic/Aux'']) (setMicMute True (Some []) online) [] =
     (Inr (result True ''Mic/Aux muted''), [Call (SetInputMute ''Mic/Aux'' True)])"
    by (simp add: setMicMute_def micNames_def fallback_mics_def online_def run_bind run_catch
        run_obs_call run_ensureConnected rpc_studio_mute muted_message_def)
  have rejects: "\<And>k r. rpc refused_env k r = Inl ''Not connected''"
    by (simp add: refused_env_def)
  have b: "run refused_env (setMicMute True None online) [] =
     (Inl ''Not connected'',
      [Call (SetInputMute ''Mic/Aux'' True), Call (SetInputMute ''Blue Yeti'' True),
       Call (SetInputMute ''Microphone'' True), Call (SetInputMute ''Mic'' True),
       Call (SetInputMute ''Audio Input Capture'' True),
       Call (SetInputMute ''Desktop Audio'' True), Call GetInputList])"
    by (simp add: setMicMute_def micNames_def fallback_mics_def online_def run_bind run_catch
        run_obs_call run_ensureConnected rejects)
  from a b show ?thesis ..
qed

lemma source_not_found_names:
  "str_includes (source_not_found source scene) source"
  "str_includes (source_not_found source scene) scene"
proof -
  show "str_includes (source_not_found source scene) source"
    unfolding source_not_found_def by (rule str_includes_mid)
  show "str_includes (source_not_found source scene) scene"
    unfolding source_not_found_def
    using str_includes_mid [of "''SOURCE_NOT_FOUND: \"'' @ source @ ''\" not found in scene \"''" scene]
    by simp
qed

text \<open>
  Claim C8, as the code has it. The \<^verbatim>\<open>catch\<close> block looks at the text of the message and
  at nothing else. On a connected client, when \<^verbatim>\<open>GetSceneItemId\<close> is rejected, or it is
  answered and \<^verbatim>\<open>SetSceneItemEnabled\<close> is rejected, \<^verbatim>\<open>setSourceVisibility\<close> returns
  \<^verbatim>\<open>{success: false}\<close> with the \<^verbatim>\<open>SOURCE_NOT_FOUND\<close> message, which names the source and the
  scene, if the message of the rejection contains \<^verbatim>\<open>NotFound\<close> or \<^verbatim>\<open>600\<close>, and throws the
  rejection itself if the message contains neither; no further request is sent.
\<close>

theorem setSourceVisibility_errors:
  assumes "client.connected c"
  shows "(rpc E (calls tr) (GetSceneItemId scene source) = Inl msg \<longrightarrow>
            run E (setSourceVisibility scene source visible c) tr =
              (if is_not_found msg then Inr (result False (source_not_found source scene))
               else Inl msg,
               tr @ [Call (GetSceneItemId scene source)])) \<and>
         (rpc E (calls tr) (GetSceneItemId scene source) = Inr res \<and>
          rpc E (Suc (calls tr)) (SetSceneItemEnabled scene (sceneItemId res) visible) = Inl msg \<longrightarrow>
            run E (setSourceVisibility scene source visible c) tr =
              (if is_not_found msg then Inr (result False (source_not_found source scene))
               else Inl msg,
               tr @ [Call (GetSceneItemId scene source),
                     Call (SetSceneItemEnabled scene (sceneItemId res) visible)])) \<and>
         \<not> success (result False (source_not_found source scene)) \<and>
         str_includes (source_not_found source scene) source \<and>
         str_includes (source_not_found source scene) scene"
  using assms source_not_found_names [of source scene]
  by (simp add: setSourceVisibility_def run_bind run_catch run_obs_call run_ensureConnected
        result_def)

text \<open>
  Instances: a rejection that counts as not found, and one that does not.
\<close>

theorem setSourceVisibility_errors_witness:
  "run (studio []) (setSourceVisibility ''Main'' ''Webcam'' True online) [] =
     (Inr (result False
        ''SOURCE_NOT_FOUND: \"Webcam\" not found in scene \"Main\". Check exact source and scene names in OBS.''),
      [Call (GetSceneItemId ''Main'' ''Webcam'')]) \<and>
   run refused_env (setSourceVisibility ''Main'' ''Webcam'' True online) [] =
     (Inl ''Not connected'', [Call (GetSceneItemId ''Main'' ''Webcam'')])"
proof -
  have on: "client.connected online"
    by (simp add: online_def)
  have a: "rpc (studio []) (calls []) (GetSceneItemId ''Main'' ''Webcam'') =
      Inl ''600: No scene items were found by that name''"
    by (simp add: studio_def)
  have b: "is_not_found ''600: No scene items were found by that name''"
    by (simp add: is_not_found_def str_includes_def sublist_code)
  have c: "rpc refused_env (calls []) (GetSceneItemId ''Main'' ''Webcam'') = Inl ''Not connected''"
    by (simp add: refused_env_def)
  have d: "\<not> is_not_found ''Not connected''"
    by (simp add: is_not_found_def str_includes_def sublist_code)
  show ?thesis
    using setSourceVisibility_errors [OF on, of "studio []" "[]" "''Main''" "''Webcam''"
        "''600: No scene items were found by that name''" True]
      setSourceVisibility_errors [OF on, of refused_env "[]" "''Main''" "''Webcam''"
        "''Not connected''" True]
      a b c d
    by (simp add: source_not_found_def)
qed

text \<open>
  Claim C8 as stated fails in both directions, since the text of a message does not tell
  what went wrong. A time-out is not a not-found condition, but its message contains
  \<^verbatim>\<open>600\<close> and the error is swallowed into \<^verbatim>\<open>SOURCE_NOT_FOUND\<close>. The controller's own answer
  for a scene item that does not exist contains neither \<^verbatim>\<open>NotFound\<close> nor \<^verbatim>\<open>600\<close>, and
  this not-found condition is thrown to the caller.
\<close>

theorem setSourceVisibility_counterexample:
  "run timed_out_env (setSourceVisibility ''Main'' ''Webcam'' True online) [] =
     (Inr (result False
        ''SOURCE_NOT_FOUND: \"Webcam\" not found in scene \"Main\". Check exact source and scene names in OBS.''),
      [Call (GetSceneItemId ''Main'' ''Webcam'')]) \<and>
   run missing_item_env (setSourceVisibility ''Main'' ''Webcam'' True online) [] =
     (Inl ''No scene items were found in the specified scene by that name or offset.'',
      [Call (GetSceneItemId ''Main'' ''Webcam'')])"
proof -
  have a: "is_not_found ''Request timed out after 6000ms''"
    by (simp add: is_not_found_def str_includes_def sublist_code)
  have b: "\<not> is_not_found
      ''No scene items were found in the specified scene by that name or offset.''"
    by (simp add: is_not_found_def str_includes_def sublist_code)
  have c: "run timed_out_env (setSourceVisibility ''Main'' ''Webcam'' True online) [] =
     (Inr (result False (source_not_found ''Webcam'' ''Main'')),
      [Call (GetSceneItemId ''Main'' ''Webcam'')])"
    using a
    by (simp add: setSourceVisibility_def timed_out_env_def online_def run_bind run_catch
        run_obs_call run_ensureConnected)
  have d: "run missing_item_env (setSourceVisibility ''Main'' ''Webcam'' True online) [] =
     (Inl ''No scene items were found in the specified scene by that name or offset.'',
      [Call (GetSceneItemId ''Main'' ''Webcam'')])"
    using b
    by (simp add: setSourceVisibility_def missing_item_env_def online_def run_bind run_catch
        run_obs_call run_ensureConnected)
  from c d show ?thesis
    by (simp add: source_not_found_def)
qed

subsection \<open>Status\<close>

text \<open>
  Claim C6, as the code has it. While the client is disconnected \<^verbatim>\<open>getStatus\<close> returns
  (it does not throw), sends nothing and leaves the client as it is; in the snapshot
  \<^verbatim>\<open>connected\<close> is false, \<^verbatim>\<open>currentScene\<close> is the string \<^verbatim>\<open>N/A\<close>, \<^verbatim>\<open>availableScenes\<close> is the
  empty array, and \<^verbatim>\<open>streamTimecode\<close>, \<^verbatim>\<open>recordTimecode\<close>, \<^verbatim>\<open>cpuUsage\<close>, \<^verbatim>\<open>memoryUsage\<close>
  and \<^verbatim>\<open>fps\<close> are null.
\<close>

theorem getStatus_disconnected:
  assumes "\<not> client.connected c"
  shows "getStatus E c tr = (Inr (offline_status ''N/A''), c, tr) \<and>
         \<not> connected (offline_status ''N/A'') \<and>
         currentScene (offline_status ''N/A'') = ''N/A'' \<and>
         availableScenes (offline_status ''N/A'') = [] \<and>
         streamTimecode (offline_status ''N/A'') = None \<and>
         recordTimecode (offline_status ''N/A'') = None \<and>
         cpuUsage (offline_status ''N/A'') = None \<and>
         memoryUsage (offline_status ''N/A'') = None \<and>
         fps (offline_status ''N/A'') = None"
  using assms by (simp add: getStatus_def offline_status_def)

text \<open>
  An instance: a client that has never connected.
\<close>

theorem getStatus_disconnected_witness:
  "\<not> client.connected new_client \<and>
   getStatus (studio []) new_client [Handshake] =
     (Inr (offline_status ''N/A''), new_client, [Handshake])"
proof -
  have a: "\<not> client.connected new_client"
    by (simp add: new_client_def)
  from getStatus_disconnected [OF a, of "studio []" "[Handshake]"] a show ?thesis
    by simp
qed

text \<open>
  Claim C6 as stated fails for two of the fields it lists: \<^verbatim>\<open>currentScene\<close> and
  \<^verbatim>\<open>availableScenes\<close> are not nullable in \<^verbatim>\<open>OBSStatus\<close>, and the snapshot of a
  disconnected client holds \<^verbatim>\<open>"N/A"\<close> and \<^verbatim>\<open>[]\<close> there.
\<close>

theorem getStatus_disconnected_counterexample:
  "getStatus refused_env new_client [] = (Inr (offline_status ''N/A''), new_client, []) \<and>
   map_of (status_json (offline_status ''N/A'')) ''currentScene'' = Some (JStr ''N/A'') \<and>
   map_of (status_json (offline_status ''N/A'')) ''availableScenes'' = Some (JArr []) \<and>
   JStr ''N/A'' \<noteq> JNull \<and> JArr [] \<noteq> JNull"
  by (simp add: getStatus_def new_client_def offline_status_def status_json_def)

lemma first_rejection_None:
  "first_rejection [Inr a, Inr b, Inr c, Inr d] = None"
  by (simp add: first_rejection_def)

lemma first_rejection_Some:
  "isl a \<or> isl b \<or> isl c \<or> isl d \<Longrightarrow> \<exists>e. first_rejection [a, b, c, d] = Some e"
  by (auto simp: first_rejection_def split: list.splits)

lemma status_body_trace:
  "snd (status_body E tr) =
     tr @ [Call GetStreamStatus, Call GetRecordStatus, Call GetCurrentProgramScene,
           Call GetSceneList, Call GetStats]"
  by (simp add: status_body_def Let_def split: option.splits)

lemma getStatus_total:
  "\<exists>snapshot tr'. getStatus E c tr = (Inr snapshot, c, tr')"
  by (cases "status_body E tr"; cases "fst (status_body E tr)") (auto simp: getStatus_def)

text \<open>
  Claim C10. \<^verbatim>\<open>getStatus\<close> always returns a snapshot and the client it was called on,
  unchanged. On a connected client, when one of \<^verbatim>\<open>GetStreamStatus\<close>, \<^verbatim>\<open>GetRecordStatus\<close>,
  \<^verbatim>\<open>GetCurrentProgramScene\<close> and \<^verbatim>\<open>GetSceneList\<close> is rejected, the snapshot is the error
  snapshot, with \<^verbatim>\<open>connected\<close> false and \<^verbatim>\<open>currentScene\<close> \<^verbatim>\<open>ERROR\<close>, while \<^verbatim>\<open>isConnected\<close>
  is still true; when these four are answered and \<^verbatim>\<open>GetStats\<close> is rejected, the snapshot
  is the one built from the four answers, with \<^verbatim>\<open>cpuUsage\<close>, \<^verbatim>\<open>memoryUsage\<close> and \<^verbatim>\<open>fps\<close>
  null.
\<close>

theorem getStatus_never_throws:
  "(\<exists>snapshot tr'. getStatus E c tr = (Inr snapshot, c, tr')) \<and>
   (client.connected c \<and>
    (isl (rpc E (calls tr) GetStreamStatus) \<or> isl (rpc E (calls tr + 1) GetRecordStatus) \<or>
     isl (rpc E (calls tr + 2) GetCurrentProgramScene) \<or> isl (rpc E (calls tr + 3) GetSceneList)) \<longrightarrow>
      getStatus E c tr =
        (Inr (offline_status ''ERROR''), c,
         tr @ [Call GetStreamStatus, Call GetRecordStatus, Call GetCurrentProgramScene,
               Call GetSceneList, Call GetStats]) \<and>
      \<not> connected (offline_status ''ERROR'') \<and>
      currentScene (offline_status ''ERROR'') = ''ERROR'' \<and>
      isConnected c) \<and>
   (client.connected c \<and>
    rpc E (calls tr) GetStreamStatus = Inr s1 \<and> rpc E (calls tr + 1) GetRecordStatus = Inr s2 \<and>
    rpc E (calls tr + 2) GetCurrentProgramScene = Inr s3 \<and> rpc E (calls tr + 3) GetSceneList = Inr s4 \<and>
    isl (rpc E (calls tr + 4) GetStats) \<longrightarrow>
      getStatus E c tr =
        (Inr \<lparr>connected = True, streaming = outputActive s1, recording = outputActive s2,
              currentScene = currentProgramSceneName s3,
              availableScenes = map sceneName (scenes s4),
              streamTimecode = or_null (outputTimecode s1),
              recordTimecode = or_null (outputTimecode s2),
              cpuUsage = None, memoryUsage = None, fps = None\<rparr>, c,
         tr @ [Call GetStreamStatus, Call GetRecordStatus, Call GetCurrentProgramScene,
               Call GetSceneList, Call GetStats]))"
proof (intro conjI impI)
  show "\<exists>snapshot tr'. getStatus E c tr = (Inr snapshot, c, tr')"
    by (rule getStatus_total)
next
  assume h: "client.connected c \<and>
    (isl (rpc E (calls tr) GetStreamStatus) \<or> isl (rpc E (calls tr + 1) GetRecordStatus) \<or>
     isl (rpc E (calls tr + 2) GetCurrentProgramScene) \<or> isl (rpc E (calls tr + 3) GetSceneList))"
  then obtain e where "first_rejection [rpc E (calls tr) GetStreamStatus,
      rpc E (calls tr + 1) GetRecordStatus, rpc E (calls tr + 2) GetCurrentProgramScene,
      rpc E (calls tr + 3) GetSceneList] = Some e"
    using first_rejection_Some by blast
  with h show "getStatus E c tr =
        (Inr (offline_status ''ERROR''), c,
         tr @ [Call GetStreamStatus, Call GetRecordStatus, Call GetCurrentProgramScene,
               Call GetSceneList, Call GetStats])"
    by (simp add: getStatus_def status_body_def Let_def)
  show "\<not> connected (offline_status ''ERROR'')" by (simp add: offline_status_def)
  show "currentScene (offline_status ''ERROR'') = ''ERROR''" by (simp add: offline_status_def)
  show "isConnected c" using h by (simp add: isConnected_def)
next
  assume h: "client.connected c \<and>
    rpc E (calls tr) GetStreamStatus = Inr s1 \<and> rpc E (calls tr + 1) GetRecordStatus = Inr s2 \<and>
    rpc E (calls tr + 2) GetCurrentProgramScene = Inr s3 \<and> rpc E (calls tr + 3) GetSceneList = Inr s4 \<and>
    isl (rpc E (calls tr + 4) GetStats)"
  then obtain e where "rpc E (calls tr + 4) GetStats = Inl e"
    by (auto simp: isl_def)
  with h show "getStatus E c tr =
        (Inr \<lparr>connected = True, streaming = outputActive s1, recording = outputActive s2,
              currentScene = currentProgramSceneName s3,
              availableScenes = map sceneName (scenes s4),
              streamTimecode = or_null (outputTimecode s1),
              recordTimecode = or_null (outputTimecode s2),
              cpuUsage = None, memoryUsage = None, fps = None\<rparr>, c,
         tr @ [Call GetStreamStatus, Call GetRecordStatus, Call GetCurrentProgramScene,
               Call GetSceneList, Call GetStats])"
    by (simp add: getStatus_def status_body_def Let_def first_rejection_None)
qed

text \<open>
  Instances: a transport that rejects every request, and a controller that rejects
  \<^verbatim>\<open>GetStats\<close> only.
\<close>

theorem getStatus_never_throws_witness:
  "getStatus refused_env online [] =
     (Inr (offline_status ''ERROR''), online,
      [Call GetStreamStatus, Call GetRecordStatus, Call GetCurrentProgramScene,
       Call GetSceneList, Call GetStats]) \<and>
   isConnected online \<and> \<not> connected (offline_status ''ERROR'') \<and>
   fst (getStatus (studio []) online []) =
     Inr \<lparr>connected = True, streaming = False, recording = False, currentScene = ''BRB'',
          availableScenes = [''StartingSoon'', ''Main'', ''BRB''],
          streamTimecode = None, recordTimecode = None,
          cpuUsage = None, memoryUsage = None, fps = None\<rparr>"
proof -
  have on: "client.connected online"
    by (simp add: online_def)
  have a: "isl (rpc refused_env (calls []) GetStreamStatus)"
    by (simp add: refused_env_def)
  have b: "rpc (studio []) (calls []) GetStreamStatus = Inr empty_response"
      "rpc (studio []) (calls [] + 1) GetRecordStatus = Inr empty_response"
      "rpc (studio []) (calls [] + 2) GetCurrentProgramScene =
         Inr (empty_response\<lparr>currentProgramSceneName := ''BRB''\<rparr>)"
      "rpc (studio []) (calls [] + 3) GetSceneList =
         Inr (empty_response\<lparr>scenes :=
              [\<lparr>sceneName = ''StartingSoon''\<rparr>, \<lparr>sceneName = ''Main''\<rparr>, \<lparr>sceneName = ''BRB''\<rparr>]\<rparr>)"
      "isl (rpc (studio []) (calls [] + 4) GetStats)"
    by (simp_all add: studio_def)
  show ?thesis
    using getStatus_never_throws [of refused_env online "[]"]
      getStatus_never_throws [of "studio []" online "[]" empty_response empty_response
        "empty_response\<lparr>currentProgramSceneName := ''BRB''\<rparr>"
        "empty_response\<lparr>scenes :=
              [\<lparr>sceneName = ''StartingSoon''\<rparr>, \<lparr>sceneName = ''Main''\<rparr>, \<lparr>sceneName = ''BRB''\<rparr>]\<rparr>"]
      on a b
    by (simp add: or_null_def empty_response_def)
qed

subsection \<open>After the retries are used up\<close>

lemma auth_failed_not_exhausted: "auth_failed \<noteq> exhausted n m"
  by (simp add: auth_failed_def exhausted_def)

lemma connect_loop_exhausted_state:
  "connect_loop E c tr = (Inl (exhausted n m), c', tr') \<Longrightarrow>
     maxRetries c' < retryCount c' \<and> \<not> connecting c' \<and> client.connected c' = client.connected c"
proof (induction E c tr rule: connect_loop.induct)
  case (1 E c tr)
  show ?case
  proof (cases "retryCount c \<le> maxRetries c")
    case False
    then show ?thesis using "1.prems" by (simp add: connect_loop_skip)
  next
    case le: True
    show ?thesis
    proof (cases "handshake E (handshakes tr)")
      case (Inr v)
      then show ?thesis using "1.prems" le by (simp add: connect_loop_success)
    next
      case (Inl msg)
      show ?thesis
      proof (cases "classify msg = Auth")
        case True
        then show ?thesis
          using "1.prems" le Inl auth_failed_not_exhausted [of n m]
          by (simp add: connect_loop_auth)
      next
        case other: False
        show ?thesis
        proof (cases "retryCount c = maxRetries c")
          case True
          then show ?thesis
            using "1.prems" Inl other connect_loop_last [of c E tr msg] by auto
        next
          case False
          with le have lt: "retryCount c < maxRetries c" by simp
          let ?c1 = "c\<lparr>retryCount := retryCount c + 1\<rparr>"
          let ?tr1 = "tr @ [Handshake]"
          have "connect_loop E ?c1
                 (?tr1 @ [Sleep (jittered (backoff ?c1) (mathRandom E (draws ?tr1)))]) =
               (Inl (exhausted n m), c', tr')"
            using "1.prems" connect_loop_retry [OF lt Inl other] by simp
          moreover have "\<not> maxRetries ?c1 < retryCount ?c1" using lt by simp
          ultimately have "maxRetries c' < retryCount c' \<and> \<not> connecting c' \<and>
              client.connected c' = client.connected ?c1"
            using "1.IH" [OF le Inl refl refl other] by blast
          then show ?thesis by simp
        qed
      qed
    qed
  qed
qed

lemma connect_exhausted_state:
  assumes "connect E c tr = (Inl (exhausted n m), c', tr')"
  shows "maxRetries c' < retryCount c' \<and> \<not> connecting c' \<and> \<not> client.connected c'"
proof -
  from assms have guard: "\<not> client.connected c" "\<not> connecting c"
    by (auto simp: connect_def split: if_splits)
  with assms have "connect_loop E (c\<lparr>connecting := True\<rparr>) tr = (Inl (exhausted n m), c', tr')"
    by (simp add: connect_def)
  from connect_loop_exhausted_state [OF this] guard show ?thesis by simp
qed

lemma connect_spent:
  assumes "spent c"
  shows "connect E c tr = (Inr (), c\<lparr>connecting := True\<rparr>, tr)"
proof (cases "connecting c")
  case True
  then have "c\<lparr>connecting := True\<rparr> = c" by simp
  with True show ?thesis by (simp add: connect_def)
next
  case False
  with assms show ?thesis
    by (simp add: connect_def spent_def connect_loop_skip)
qed

lemma fire_spent:
  assumes "spent c" and "fire E a (c, tr, t) = (c', tr', t')"
  shows "spent c' \<and> tr' = tr \<and> retryCount c' = retryCount c \<and> maxRetries c' = maxRetries c \<and>
         (connecting c \<longrightarrow> connecting c' \<and> t' \<le> t) \<and> (a = CallConnect \<longrightarrow> connecting c')"
  using assms
  by (cases a)
     (auto simp: connect_spent spent_def disconnect_def scheduleReconnect_def split: if_splits)

lemma fire_all_spent:
  assumes "spent c" and "fire_all E as (c, tr, t) = (c', tr', t')"
  shows "spent c' \<and> tr' = tr \<and> retryCount c' = retryCount c \<and> maxRetries c' = maxRetries c \<and>
         (connecting c \<longrightarrow> connecting c' \<and> t' \<le> t) \<and> (CallConnect \<in> set as \<longrightarrow> connecting c')"
  using assms
proof (induction as arbitrary: c t)
  case Nil
  then show ?case by simp
next
  case (Cons a as)
  obtain c1 tr1 t1 where f: "fire E a (c, tr, t) = (c1, tr1, t1)"
    by (cases "fire E a (c, tr, t)")
  from fire_spent [OF Cons.prems(1) f] have
    one: "spent c1" "tr1 = tr" "retryCount c1 = retryCount c" "maxRetries c1 = maxRetries c"
      "connecting c \<longrightarrow> connecting c1 \<and> t1 \<le> t" "a = CallConnect \<longrightarrow> connecting c1"
    by simp_all
  from Cons.prems(2) f one(2) have rest: "fire_all E as (c1, tr, t1) = (c', tr', t')"
    by simp
  from Cons.IH [OF one(1) rest] have
    two: "spent c'" "tr' = tr" "retryCount c' = retryCount c1" "maxRetries c' = maxRetries c1"
      "connecting c1 \<longrightarrow> connecting c' \<and> t' \<le> t1" "CallConnect \<in> set as \<longrightarrow> connecting c'"
    by simp_all
  show ?case using one two by auto
qed

text \<open>
  Claim C9. Once \<^verbatim>\<open>connect\<close> has thrown the exhaustion error, whatever happens to the
  client afterwards (calls of \<^verbatim>\<open>connect\<close> and \<^verbatim>\<open>disconnect\<close>, transport events, reconnect
  timers going off): \<^verbatim>\<open>retryCount\<close> keeps its value above \<^verbatim>\<open>maxRetries\<close>, the client is
  never connected, nothing is added to the trace (no handshake is attempted), and a call
  of \<^verbatim>\<open>connect\<close> returns without error, sends nothing and leaves \<^verbatim>\<open>connecting\<close> true. After
  the first such call \<^verbatim>\<open>connecting\<close> stays true for good and no reconnect timer is set
  any more.
\<close>

theorem exhausted_client_never_reconnects:
  assumes "connect E c0 tr0 = (Inl (exhausted n m), c, tr)"
    and "fire_all E as (c, tr, timers) = (c', tr', timers')"
  shows "retryCount c' = retryCount c \<and> maxRetries c' < retryCount c' \<and>
         \<not> client.connected c' \<and> tr' = tr \<and>
         connect E c' tr' = (Inr (), c'\<lparr>connecting := True\<rparr>, tr') \<and>
         (CallConnect \<in> set as \<longrightarrow> connecting c') \<and>
         (connecting c' \<longrightarrow>
            (\<forall>bs c'' tr'' timers''.
               fire_all E bs (c', tr', timers') = (c'', tr'', timers'') \<longrightarrow>
                 connecting c'' \<and> timers'' \<le> timers'))"
proof -
  from connect_exhausted_state [OF assms(1)] have sp: "spent c"
    by (simp add: spent_def)
  from fire_all_spent [OF sp assms(2)] have
    a: "spent c'" "tr' = tr" "retryCount c' = retryCount c" "maxRetries c' = maxRetries c"
      "CallConnect \<in> set as \<longrightarrow> connecting c'"
    by simp_all
  have b: "connect E c' tr' = (Inr (), c'\<lparr>connecting := True\<rparr>, tr')"
    using a(1) by (rule connect_spent)
  have c: "connecting c' \<longrightarrow>
            (\<forall>bs c'' tr'' timers''.
               fire_all E bs (c', tr', timers') = (c'', tr'', timers'') \<longrightarrow>
                 connecting c'' \<and> timers'' \<le> timers')"
    using fire_all_spent [OF a(1)] by blast
  show ?thesis using a b c by (simp add: spent_def)
qed

text \<open>
  An instance: after the exhaustion of a fresh client the connection closes, the reconnect
  timer goes off, and \<^verbatim>\<open>connect\<close> is called once more.
\<close>

theorem exhausted_client_never_reconnects_witness:
  "fst (connect refused_env new_client []) =
     Inl (exhausted 10 ''connect ECONNREFUSED 127.0.0.1:4455'') \<and>
   retryCount (fst after_exhaustion) = 11 \<and>
   fire_all refused_env [ConnectionClosed, ReconnectTimer, CallConnect]
     (fst after_exhaustion, snd after_exhaustion, 0) =
     ((fst after_exhaustion)\<lparr>connecting := True\<rparr>, snd after_exhaustion, 0) \<and>
   connect refused_env ((fst after_exhaustion)\<lparr>connecting := True\<rparr>) (snd after_exhaustion) =
     (Inr (), (fst after_exhaustion)\<lparr>connecting := True\<rparr>, snd after_exhaustion)"
proof -
  let ?m = "''connect ECONNREFUSED 127.0.0.1:4455''"
  let ?c = "new_client\<lparr>connecting := True\<rparr>"
  let ?spent = "new_client\<lparr>retryCount := 11\<rparr>"
  have start: "connect refused_env new_client [] = connect_loop refused_env ?c []"
    by (simp add: connect_def new_client_def)
  have fails: "\<And>k. handshake refused_env k = Inl ?m \<and> classify ?m \<noteq> Auth"
    by (simp add: refused_env_def classify_refused)
  have "connect_loop refused_env ?c [] =
      (Inl (exhausted (maxRetries ?c) ?m),
       ?c\<lparr>retryCount := maxRetries ?c + 1, connecting := False\<rparr>,
       [] @ concat (map (\<lambda>i. [Handshake,
              Sleep (jittered (min (baseDelay ?c * 2 ^ (retryCount ?c + i)) (maxDelay ?c))
                              (mathRandom refused_env (draws [] + i)))]) [0..<10]) @ [Handshake])"
    by (rule connect_loop_exhausts [of refused_env "\<lambda>k. ?m", OF fails]) (simp_all add: new_client_def)
  moreover have "?c\<lparr>retryCount := maxRetries ?c + 1, connecting := False\<rparr> = ?spent"
    by (simp add: new_client_def)
  moreover have "maxRetries ?c = 10"
    by (simp add: new_client_def)
  ultimately obtain tr where run: "connect refused_env new_client [] = (Inl (exhausted 10 ?m), ?spent, tr)"
    using start by simp
  then have ae: "after_exhaustion = (?spent, tr)"
    by (simp add: after_exhaustion_def)
  let ?as = "[ConnectionClosed, ReconnectTimer, CallConnect]"
  have f: "fire_all refused_env ?as (?spent, tr, 0) = (?spent\<lparr>connecting := True\<rparr>, tr, 0)"
    by (simp add: connect_def connect_loop_skip scheduleReconnect_def new_client_def)
  from exhausted_client_never_reconnects [OF run f] have again:
    "connect refused_env (?spent\<lparr>connecting := True\<rparr>) tr =
       (Inr (), ?spent\<lparr>connecting := True\<rparr>, tr)"
    by simp
  show ?thesis
    unfolding ae fst_conv snd_conv
  proof (intro conjI)
    show "fst (connect refused_env new_client []) = Inl (exhausted 10 ?m)"
      by (simp add: run)
    show "retryCount ?spent = 11"
      by simp
    show "fire_all refused_env ?as (?spent, tr, 0) = (?spent\<lparr>connecting := True\<rparr>, tr, 0)"
      by (rule f)
    show "connect refused_env (?spent\<lparr>connecting := True\<rparr>) tr =
       (Inr (), ?spent\<lparr>connecting := True\<rparr>, tr)"
      by (rule again)
  qed
qed

subsection \<open>The command queue\<close>

lemma queue_inv_init: "queue_inv (init c)"
  by (simp add: queue_inv_def init_def)

lemma set_stage_fields [simp]:
  "session (set_stage i st s) = session s"
  "commandQueue (set_stage i st s) = commandQueue s"
  "fulfilled (set_stage i st s) = fulfilled s"
  "wire (set_stage i st s) = wire s"
  "length (tasks (set_stage i st s)) = length (tasks s)"
  by (simp_all add: set_stage_def)

lemma set_stage_nth:
  "j < length (tasks s) \<Longrightarrow>
   tasks (set_stage i st s) ! j = (if j = i then (tasks s ! i)\<lparr>stage := st\<rparr> else tasks s ! j)"
  by (simp add: set_stage_def nth_list_update)

lemma queue_inv_begun:
  assumes inv: "queue_inv s" and i: "i < length (tasks s)"
    and st: "\<not> waiting (\<lparr>invoked = opn, prev = p, resolve = q, stage = st\<rparr>)"
       "\<not> released (\<lparr>invoked = opn, prev = p, resolve = q, stage = st\<rparr>)"
    and now: "\<not> released (tasks s ! i)"
    and before: "\<forall>k<i. released (tasks s ! k)"
    and w: "wire s' = wire s \<or> (\<exists>r. wire s' = wire s @ [(i, r)])"
    and rest: "fulfilled s' = fulfilled s" "commandQueue s' = commandQueue s" "tasks s' = tasks s"
  shows "queue_inv (set_stage i st s')"
proof -
  let ?t = "set_stage i st s'"
  have len: "length (tasks ?t) = length (tasks s)" using rest by simp
  have nth: "\<And>j. j < length (tasks s) \<Longrightarrow>
      tasks ?t ! j = (if j = i then (tasks s ! i)\<lparr>stage := st\<rparr> else tasks s ! j)"
    using rest by (simp add: set_stage_nth)
  have nw: "\<not> waiting ((tasks s ! i)\<lparr>stage := st\<rparr>)" and nr: "\<not> released ((tasks s ! i)\<lparr>stage := st\<rparr>)"
    using st by simp_all
  have later: "\<And>j. j < length (tasks s) \<Longrightarrow> \<not> waiting (tasks s ! j) \<Longrightarrow> j \<le> i"
  proof (rule ccontr)
    fix j assume "j < length (tasks s)" "\<not> waiting (tasks s ! j)" "\<not> j \<le> i"
    then have "released (tasks s ! i)" using inv by (auto simp: queue_inv_def)
    with now show False ..
  qed
  have tasks_ok: "\<forall>j < length (tasks ?t).
        prev (tasks ?t ! j) = j \<and> resolve (tasks ?t ! j) = Suc j \<and>
        (fulfilled ?t ! Suc j \<longleftrightarrow> released (tasks ?t ! j)) \<and>
        (\<not> waiting (tasks ?t ! j) \<longrightarrow> (\<forall>k<j. released (tasks ?t ! k)))"
  proof (intro allI impI)
    fix j assume j: "j < length (tasks ?t)"
    then have j': "j < length (tasks s)" using len by simp
    from inv j' have old: "prev (tasks s ! j) = j" "resolve (tasks s ! j) = Suc j"
        "fulfilled s ! Suc j \<longleftrightarrow> released (tasks s ! j)"
        "\<not> waiting (tasks s ! j) \<longrightarrow> (\<forall>k<j. released (tasks s ! k))"
      by (simp_all add: queue_inv_def)
    show "prev (tasks ?t ! j) = j \<and> resolve (tasks ?t ! j) = Suc j \<and>
        (fulfilled ?t ! Suc j \<longleftrightarrow> released (tasks ?t ! j)) \<and>
        (\<not> waiting (tasks ?t ! j) \<longrightarrow> (\<forall>k<j. released (tasks ?t ! k)))"
    proof (cases "j = i")
      case True
      have "\<forall>k<i. released (tasks ?t ! k)"
        using before i by (simp add: nth)
      moreover have "\<not> fulfilled s ! Suc i" using old now True by simp
      ultimately show ?thesis using True old nr i rest by (simp add: nth)
    next
      case False
      have "\<not> waiting (tasks s ! j) \<longrightarrow> (\<forall>k<j. released (tasks ?t ! k))"
      proof (intro impI allI)
        fix k assume a: "\<not> waiting (tasks s ! j)" "k < j"
        with later [OF j'] have "k \<noteq> i" by auto
        moreover have "k < length (tasks s)" using a j' by simp
        ultimately show "released (tasks ?t ! k)" using old a by (simp add: nth)
      qed
      then show ?thesis using False old j' rest by (simp add: nth)
    qed
  qed
  have owners: "\<forall>k \<in> fst ` set (wire s). k \<le> i"
    using inv later by (auto simp: queue_inv_def)
  have sorted_wire: "sorted (map fst (wire ?t))"
    using w inv owners rest by (auto simp: queue_inv_def sorted_append)
  have wire_ok: "\<forall>k \<in> fst ` set (wire ?t). k < length (tasks ?t) \<and> \<not> waiting (tasks ?t ! k)"
  proof
    fix k assume "k \<in> fst ` set (wire ?t)"
    then have "k = i \<or> k \<in> fst ` set (wire s)" using w by auto
    then show "k < length (tasks ?t) \<and> \<not> waiting (tasks ?t ! k)"
    proof
      assume "k = i"
      then show ?thesis using i nw len by (simp add: nth)
    next
      assume "k \<in> fst ` set (wire s)"
      then have "k < length (tasks s)" "\<not> waiting (tasks s ! k)"
        using inv by (auto simp: queue_inv_def)
      then show ?thesis using nw len by (simp add: nth)
    qed
  qed
  show ?thesis
    unfolding queue_inv_def
    using inv tasks_ok sorted_wire wire_ok rest len by (simp add: queue_inv_def)
qed

lemma queue_inv_advance:
  assumes "queue_inv s" and "i < length (tasks s)" and "\<not> released (tasks s ! i)"
    and "\<forall>k<i. released (tasks s ! k)"
  shows "queue_inv (advance i p s)"
proof (cases p)
  case (Return v)
  show ?thesis
    unfolding Return advance.simps
    by (rule queue_inv_begun [OF assms(1,2) _ _ assms(3,4)]) simp_all
next
  case (Throw e)
  show ?thesis
    unfolding Throw advance.simps
    by (rule queue_inv_begun [OF assms(1,2) _ _ assms(3,4)]) simp_all
next
  case (Await r k)
  show ?thesis
    unfolding Await advance.simps
    by (rule queue_inv_begun [OF assms(1,2) _ _ assms(3,4)]) simp_all
qed

lemma queue_inv_prefix:
  assumes "queue_inv s" and "i < length (tasks s)" and "\<not> waiting (tasks s ! i)"
  shows "\<forall>k<i. released (tasks s ! k)"
  using assms by (simp add: queue_inv_def)

lemma queue_inv_resumable:
  assumes inv: "queue_inv s" and i: "i < length (tasks s)"
    and ful: "fulfilled s ! prev (tasks s ! i)"
  shows "\<forall>k<i. released (tasks s ! k)"
proof (cases i)
  case 0
  then show ?thesis by simp
next
  case (Suc j)
  with inv i ful have rel: "released (tasks s ! j)"
    by (auto simp: queue_inv_def)
  then have "\<not> waiting (tasks s ! j)"
    by (cases "stage (tasks s ! j)") simp_all
  moreover have "j < length (tasks s)" using i Suc by simp
  ultimately have "\<forall>k<j. released (tasks s ! k)"
    using inv by (simp add: queue_inv_def del: released_def waiting_def)
  with rel Suc show ?thesis
    by (simp add: less_Suc_eq)
qed

lemma queue_inv_invoke:
  assumes "queue_inv s" and "step cfg (Invoke opn) s = Some s'"
  shows "queue_inv s'"
proof -
  from assms(2) have s': "s' = s\<lparr>commandQueue := length (fulfilled s),
             fulfilled := fulfilled s @ [False],
             tasks := tasks s @ [\<lparr>invoked = opn, prev = commandQueue s,
                                  resolve = length (fulfilled s), stage = Waiting\<rparr>]\<rparr>"
    by simp
  from assms(1) have len: "length (fulfilled s) = Suc (length (tasks s))"
    and q: "commandQueue s = length (tasks s)"
    by (simp_all add: queue_inv_def)
  show ?thesis
    unfolding s' using assms(1) len q
    by (auto simp: queue_inv_def nth_append less_Suc_eq)
qed

lemma queue_inv_finally:
  assumes inv: "queue_inv s" and i: "i < length (tasks s)" and st: "stage (tasks s ! i) = Settled r"
  shows "queue_inv (set_stage i (Released r) (s\<lparr>fulfilled := (fulfilled s)[Suc i := True]\<rparr>))"
proof -
  let ?s1 = "s\<lparr>fulfilled := (fulfilled s)[Suc i := True]\<rparr>"
  let ?t = "set_stage i (Released r) ?s1"
  from inv have len: "length (fulfilled s) = Suc (length (tasks s))" by (simp add: queue_inv_def)
  have nth: "\<And>j. j < length (tasks s) \<Longrightarrow>
      tasks ?t ! j = (if j = i then (tasks s ! i)\<lparr>stage := Released r\<rparr> else tasks s ! j)"
    by (simp add: set_stage_nth)
  have mono: "\<And>j. j < length (tasks s) \<Longrightarrow> released (tasks s ! j) \<Longrightarrow> released (tasks ?t ! j)"
    by (simp add: nth)
  have same: "\<And>j. j < length (tasks s) \<Longrightarrow> waiting (tasks ?t ! j) = waiting (tasks s ! j)"
    using st by (simp add: nth)
  have tasks_ok: "\<forall>j < length (tasks ?t).
        prev (tasks ?t ! j) = j \<and> resolve (tasks ?t ! j) = Suc j \<and>
        (fulfilled ?t ! Suc j \<longleftrightarrow> released (tasks ?t ! j)) \<and>
        (\<not> waiting (tasks ?t ! j) \<longrightarrow> (\<forall>k<j. released (tasks ?t ! k)))"
  proof (intro allI impI)
    fix j assume "j < length (tasks ?t)"
    then have j: "j < length (tasks s)" by simp
    from inv j have old: "prev (tasks s ! j) = j" "resolve (tasks s ! j) = Suc j"
        "fulfilled s ! Suc j \<longleftrightarrow> released (tasks s ! j)"
        "\<not> waiting (tasks s ! j) \<longrightarrow> (\<forall>k<j. released (tasks s ! k))"
      by (simp_all add: queue_inv_def)
    have "\<not> waiting (tasks ?t ! j) \<longrightarrow> (\<forall>k<j. released (tasks ?t ! k))"
      using old(4) same [OF j] mono j by auto
    moreover have "fulfilled ?t ! Suc j \<longleftrightarrow> released (tasks ?t ! j)"
      using old(3) j i len by (simp add: nth nth_list_update)
    ultimately show "prev (tasks ?t ! j) = j \<and> resolve (tasks ?t ! j) = Suc j \<and>
        (fulfilled ?t ! Suc j \<longleftrightarrow> released (tasks ?t ! j)) \<and>
        (\<not> waiting (tasks ?t ! j) \<longrightarrow> (\<forall>k<j. released (tasks ?t ! k)))"
      using old(1,2) j by (cases "j = i") (simp_all add: nth del: released_def waiting_def)
  qed
  have wire_ok: "\<forall>k \<in> fst ` set (wire ?t). k < length (tasks ?t) \<and> \<not> waiting (tasks ?t ! k)"
    using inv same by (auto simp: queue_inv_def)
  have zero: "fulfilled ?t ! 0"
    using inv by (simp add: queue_inv_def)
  show ?thesis
    unfolding queue_inv_def
    using inv tasks_ok wire_ok zero by (simp add: queue_inv_def)
qed

lemma queue_inv_step:
  assumes inv: "queue_inv s" and step: "step cfg a s = Some s'"
  shows "queue_inv s'"
proof (cases a)
  case (Invoke opn)
  with assms show ?thesis by (simp only: queue_inv_invoke)
next
  case (Resume i)
  with step have i: "i < length (tasks s)" and w: "stage (tasks s ! i) = Waiting"
    and ful: "fulfilled s ! prev (tasks s ! i)"
    and s': "s' = advance i (body cfg (invoked (tasks s ! i)) (session s)) s"
    by (auto split: if_splits stage.splits)
  from w have "\<not> released (tasks s ! i)" by simp
  moreover from queue_inv_resumable [OF inv i ful] have "\<forall>k<i. released (tasks s ! k)" .
  ultimately show ?thesis
    unfolding s' using inv i by (intro queue_inv_advance)
next
  case (Answer i x)
  with step obtain k where i: "i < length (tasks s)" and r: "stage (tasks s ! i) = Running k"
    and s': "s' = advance i (k x) s"
    by (auto split: if_splits stage.splits)
  from r have "\<not> released (tasks s ! i)" "\<not> waiting (tasks s ! i)" by simp_all
  moreover from queue_inv_prefix [OF inv i this(2)] have "\<forall>k<i. released (tasks s ! k)" .
  ultimately show ?thesis
    unfolding s' using inv i by (intro queue_inv_advance)
next
  case (Finally i)
  with step obtain r where i: "i < length (tasks s)" and st: "stage (tasks s ! i) = Settled r"
    and s': "s' = set_stage i (Released r)
                     (s\<lparr>fulfilled := (fulfilled s)[resolve (tasks s ! i) := True]\<rparr>)"
    by (auto split: if_splits stage.splits)
  from inv i have res: "resolve (tasks s ! i) = Suc i" by (simp add: queue_inv_def)
  show ?thesis unfolding s' res by (rule queue_inv_finally [OF inv i st])
next
  case (Link b)
  with step have "s' = s\<lparr>session := (session s)\<lparr>client.connected := b\<rparr>\<rparr>" by simp
  with inv show ?thesis by (simp add: queue_inv_def)
qed

lemma queue_inv_exec:
  "queue_inv s \<Longrightarrow> exec cfg as s = Some s' \<Longrightarrow> queue_inv s'"
proof (induction as arbitrary: s)
  case Nil
  then show ?case by simp
next
  case (Cons a as)
  then obtain s1 where a: "step cfg a s = Some s1" and rest: "exec cfg as s1 = Some s'"
    by (auto split: option.splits)
  from queue_inv_step [OF Cons.prems(1) a] rest show ?case
    by (rule Cons.IH)
qed

lemma exec_append:
  "exec cfg (as @ bs) s = (case exec cfg as s of None \<Rightarrow> None | Some s' \<Rightarrow> exec cfg bs s')"
  by (induction as arbitrary: s) (simp_all split: option.splits)

lemma advance_tasks:
  "length (tasks (advance i p s)) = length (tasks s)"
  "j < length (tasks s) \<Longrightarrow> j \<noteq> i \<Longrightarrow> tasks (advance i p s) ! j = tasks s ! j"
  by (cases p; simp add: set_stage_nth)+

lemma step_keeps_released:
  assumes "step cfg a s = Some s'" and "j < length (tasks s)" and "released (tasks s ! j)"
  shows "length (tasks s) \<le> length (tasks s') \<and> released (tasks s' ! j)"
proof (cases a)
  case (Invoke opn)
  with assms show ?thesis by (auto simp: nth_append)
next
  case (Resume i)
  with assms(1) have "is_Waiting (stage (tasks s ! i))" and s': "s' = advance i (body cfg (invoked (tasks s ! i)) (session s)) s"
    by (auto split: if_splits stage.splits)
  with assms(3) have "j \<noteq> i" by (cases "stage (tasks s ! i)") auto
  with assms(2,3) show ?thesis unfolding s' by (simp add: advance_tasks)
next
  case (Answer i x)
  with assms(1) obtain k where "stage (tasks s ! i) = Running k" and s': "s' = advance i (k x) s"
    by (auto split: if_splits stage.splits)
  with assms(3) have "j \<noteq> i" by auto
  with assms(2,3) show ?thesis unfolding s' by (simp add: advance_tasks)
next
  case (Finally i)
  with assms(1) obtain r where s': "s' = set_stage i (Released r)
                     (s\<lparr>fulfilled := (fulfilled s)[resolve (tasks s ! i) := True]\<rparr>)"
    by (auto split: if_splits stage.splits)
  with assms(2,3) show ?thesis by (simp add: set_stage_nth)
next
  case (Link b)
  with assms show ?thesis by auto
qed

lemma exec_keeps_released:
  "exec cfg as s = Some s' \<Longrightarrow> j < length (tasks s) \<Longrightarrow> released (tasks s ! j) \<Longrightarrow>
     length (tasks s) \<le> length (tasks s') \<and> released (tasks s' ! j)"
proof (induction as arbitrary: s)
  case Nil
  then show ?case by simp
next
  case (Cons a as)
  then obtain s1 where a: "step cfg a s = Some s1" and rest: "exec cfg as s1 = Some s'"
    by (auto split: option.splits)
  from step_keeps_released [OF a Cons.prems(2,3)]
  have one: "length (tasks s) \<le> length (tasks s1)" "released (tasks s1 ! j)" by simp_all
  with Cons.prems(2) have "j < length (tasks s1)" by simp
  from Cons.IH [OF rest this one(2)] one(1) show ?case by simp
qed

lemma finish_call:
  "i < length (tasks s) \<Longrightarrow>
     \<exists>bs s'. exec cfg bs (advance i p s) = Some s' \<and>
             length (tasks s') = length (tasks s) \<and> released (tasks s' ! i)"
proof (induction p arbitrary: s)
  case (Return v)
  let ?s1 = "set_stage i (Settled (Inr v)) s"
  let ?s2 = "set_stage i (Released (Inr v)) (?s1\<lparr>fulfilled := (fulfilled ?s1)[resolve (tasks ?s1 ! i) := True]\<rparr>)"
  have "exec cfg [Finally i] (advance i (Return v) s) = Some ?s2"
    using Return by (simp add: set_stage_nth)
  moreover have "length (tasks ?s2) = length (tasks s)" "released (tasks ?s2 ! i)"
    using Return by (simp_all add: set_stage_nth)
  ultimately show ?case by blast
next
  case (Throw e)
  let ?s1 = "set_stage i (Settled (Inl e)) s"
  let ?s2 = "set_stage i (Released (Inl e)) (?s1\<lparr>fulfilled := (fulfilled ?s1)[resolve (tasks ?s1 ! i) := True]\<rparr>)"
  have "exec cfg [Finally i] (advance i (Throw e) s) = Some ?s2"
    using Throw by (simp add: set_stage_nth)
  moreover have "length (tasks ?s2) = length (tasks s)" "released (tasks ?s2 ! i)"
    using Throw by (simp_all add: set_stage_nth)
  ultimately show ?case by blast
next
  case (Await r k)
  let ?s1 = "set_stage i (Running k) (s\<lparr>wire := wire s @ [(i, r)]\<rparr>)"
  let ?x = "Inl [] :: string + response"
  have len: "i < length (tasks ?s1)" using Await.prems by simp
  have "k ?x \<in> range k" by blast
  from Await.IH [OF this len] obtain bs s' where
    run: "exec cfg bs (advance i (k ?x) ?s1) = Some s'"
    and fin: "length (tasks s') = length (tasks ?s1)" "released (tasks s' ! i)"
    by blast
  have "step cfg (Answer i ?x) ?s1 = Some (advance i (k ?x) ?s1)"
    using Await.prems by (simp add: set_stage_nth)
  with run have "exec cfg (Answer i ?x # bs) (advance i (Await r k) s) = Some s'"
    by simp
  moreover have "length (tasks ?s1) = length (tasks s)" by simp
  ultimately show ?case using fin by (intro exI [of _ "Answer i ?x # bs"] exI [of _ s']) simp
qed

lemma queue_inv_startable:
  assumes "queue_inv t" and "j < length (tasks t)" and "waiting (tasks t ! j)"
    and "\<forall>i<j. released (tasks t ! i)"
  shows "step cfg (Resume j) t =
           Some (advance j (body cfg (invoked (tasks t ! j)) (session t)) t)"
proof -
  from assms(1,2) have p: "prev (tasks t ! j) = j" and len: "j < length (fulfilled t)"
    by (simp_all add: queue_inv_def)
  have "fulfilled t ! j"
  proof (cases j)
    case 0
    with assms(1) show ?thesis by (simp add: queue_inv_def)
  next
    case (Suc k)
    with assms show ?thesis by (auto simp: queue_inv_def)
  qed
  with assms(2,3) p len show ?thesis
    by (cases "stage (tasks t ! j)") simp_all
qed

lemma release_next:
  assumes inv: "queue_inv s" and m: "m < length (tasks s)"
    and before: "\<forall>k<m. released (tasks s ! k)"
  shows "\<exists>bs s'. exec cfg bs s = Some s' \<and> length (tasks s') = length (tasks s) \<and>
           released (tasks s' ! m)"
proof (cases "stage (tasks s ! m)")
  case Waiting
  let ?p = "body cfg (invoked (tasks s ! m)) (session s)"
  from Waiting have "waiting (tasks s ! m)" by simp
  from queue_inv_startable [OF inv m this before]
  have start: "step cfg (Resume m) s = Some (advance m ?p s)" .
  from finish_call [OF m, of cfg ?p] obtain bs s' where
    "exec cfg bs (advance m ?p s) = Some s'" "length (tasks s') = length (tasks s)"
    "released (tasks s' ! m)"
    by blast
  with start show ?thesis
    by (intro exI [of _ "Resume m # bs"] exI [of _ s']) simp
next
  case (Running k)
  let ?x = "Inl [] :: string + response"
  from Running m have answer: "step cfg (Answer m ?x) s = Some (advance m (k ?x) s)"
    by simp
  from finish_call [OF m, of cfg "k ?x"] obtain bs s' where
    "exec cfg bs (advance m (k ?x) s) = Some s'" "length (tasks s') = length (tasks s)"
    "released (tasks s' ! m)"
    by blast
  with answer show ?thesis
    by (intro exI [of _ "Answer m ?x # bs"] exI [of _ s']) simp
next
  case (Settled r)
  let ?s' = "set_stage m (Released r) (s\<lparr>fulfilled := (fulfilled s)[resolve (tasks s ! m) := True]\<rparr>)"
  from Settled m have "exec cfg [Finally m] s = Some ?s'"
    by simp
  moreover have "length (tasks ?s') = length (tasks s)" "released (tasks ?s' ! m)"
    using m by (simp_all add: set_stage_nth)
  ultimately show ?thesis by blast
next
  case (Released r)
  then have "exec cfg [] s = Some s" "released (tasks s ! m)" by simp_all
  then show ?thesis by blast
qed

lemma drain_from:
  assumes "queue_inv s" and "length (tasks s) - m = d" and "m \<le> length (tasks s)"
    and "\<forall>k<m. released (tasks s ! k)"
  shows "\<exists>bs s'. exec cfg bs s = Some s' \<and> length (tasks s') = length (tasks s) \<and>
           (\<forall>i<length (tasks s'). released (tasks s' ! i))"
  using assms
proof (induction d arbitrary: s m)
  case 0
  then have "exec cfg [] s = Some s" "\<forall>i<length (tasks s). released (tasks s ! i)"
    by simp_all
  then show ?case by blast
next
  case (Suc d)
  then have m: "m < length (tasks s)" by simp
  from release_next [OF Suc.prems(1) m Suc.prems(4), of cfg] obtain bs1 s1 where
    one: "exec cfg bs1 s = Some s1" "length (tasks s1) = length (tasks s)"
      "released (tasks s1 ! m)"
    by blast
  have inv1: "queue_inv s1"
    using Suc.prems(1) one(1) by (rule queue_inv_exec)
  have before1: "\<forall>k<Suc m. released (tasks s1 ! k)"
  proof (intro allI impI)
    fix k assume k: "k < Suc m"
    show "released (tasks s1 ! k)"
    proof (cases "k = m")
      case True
      with one(3) show ?thesis by simp
    next
      case False
      with k have "k < m" by simp
      with Suc.prems(4) m have "k < length (tasks s)" "released (tasks s ! k)" by simp_all
      from exec_keeps_released [OF one(1) this] show ?thesis by simp
    qed
  qed
  have "length (tasks s1) - Suc m = d" "Suc m \<le> length (tasks s1)"
    using Suc.prems(2) m one(2) by simp_all
  from Suc.IH [OF inv1 this before1] obtain bs2 s2 where
    two: "exec cfg bs2 s1 = Some s2" "length (tasks s2) = length (tasks s1)"
      "\<forall>i<length (tasks s2). released (tasks s2 ! i)"
    by blast
  from one(1) two(1) have "exec cfg (bs1 @ bs2) s = Some s2"
    by (simp add: exec_append)
  with two(2,3) one(2) show ?case
    by (intro exI [of _ "bs1 @ bs2"] exI [of _ s2]) simp
qed

lemma drain:
  assumes "queue_inv s"
  shows "\<exists>bs s'. exec cfg bs s = Some s' \<and> length (tasks s') = length (tasks s) \<and>
           (\<forall>i<length (tasks s'). released (tasks s' ! i))"
  using drain_from [OF assms, of 0] by simp

text \<open>
  Claim C1. After any schedule of calls of the seven mutating operations on one client:
  the requests on the wire are grouped by call, in the order in which the calls were made
  (the owners of successive requests never decrease), so the requests of two calls never
  interleave; a call that has started \<^verbatim>\<open>fn\<close> has every earlier call past its \<^verbatim>\<open>finally\<close>
  block; a waiting call whose predecessors are all past it can start; a call whose
  \<^verbatim>\<open>fn\<close> has returned or thrown can run its \<^verbatim>\<open>finally\<close> block, after which the next
  call in the queue can start; and the schedule can always be continued, the controller
  answering the pending requests, until every call made so far has left the queue.
\<close>

theorem serialize_fifo:
  assumes "exec cfg as (init c) = Some s"
  shows "sorted (map fst (wire s)) \<and>
         (\<forall>i j. i < j \<and> j < length (tasks s) \<and> \<not> waiting (tasks s ! j) \<longrightarrow>
                released (tasks s ! i)) \<and>
         (\<forall>j < length (tasks s).
            waiting (tasks s ! j) \<and> (\<forall>i<j. released (tasks s ! i)) \<longrightarrow>
              step cfg (Resume j) s \<noteq> None) \<and>
         (\<forall>i < length (tasks s). \<forall>r.
            stage (tasks s ! i) = Settled r \<longrightarrow>
              (\<exists>s'. step cfg (Finally i) s = Some s' \<and>
                    stage (tasks s' ! i) = Released r \<and>
                    (Suc i < length (tasks s) \<longrightarrow> step cfg (Resume (Suc i)) s' \<noteq> None))) \<and>
         (\<exists>bs s'. exec cfg (as @ bs) (init c) = Some s' \<and>
                  length (tasks s') = length (tasks s) \<and>
                  (\<forall>i<length (tasks s'). released (tasks s' ! i)))"
proof -
  from queue_inv_exec [OF queue_inv_init assms] have inv: "queue_inv s" .
  have e: "\<exists>bs s'. exec cfg (as @ bs) (init c) = Some s' \<and>
                  length (tasks s') = length (tasks s) \<and>
                  (\<forall>i<length (tasks s'). released (tasks s' ! i))"
    using drain [OF inv, of cfg] assms by (simp add: exec_append)
  have a: "sorted (map fst (wire s))"
    using inv by (simp add: queue_inv_def)
  have b: "\<forall>i j. i < j \<and> j < length (tasks s) \<and> \<not> waiting (tasks s ! j) \<longrightarrow>
                released (tasks s ! i)"
    using inv by (auto simp: queue_inv_def)
  have startable: "step cfg (Resume j) t \<noteq> None"
    if "queue_inv t" "j < length (tasks t)" "waiting (tasks t ! j)" "\<forall>i<j. released (tasks t ! i)"
    for t j
    using queue_inv_startable [OF that, of cfg] by simp
  have c: "\<forall>j < length (tasks s).
            waiting (tasks s ! j) \<and> (\<forall>i<j. released (tasks s ! i)) \<longrightarrow>
              step cfg (Resume j) s \<noteq> None"
    using startable [OF inv] by blast
  have d: "\<forall>i < length (tasks s). \<forall>r.
            stage (tasks s ! i) = Settled r \<longrightarrow>
              (\<exists>s'. step cfg (Finally i) s = Some s' \<and>
                    stage (tasks s' ! i) = Released r \<and>
                    (Suc i < length (tasks s) \<longrightarrow> step cfg (Resume (Suc i)) s' \<noteq> None))"
  proof (intro allI impI)
    fix i r assume i: "i < length (tasks s)" and st: "stage (tasks s ! i) = Settled r"
    let ?s' = "set_stage i (Released r) (s\<lparr>fulfilled := (fulfilled s)[Suc i := True]\<rparr>)"
    from inv i have res: "resolve (tasks s ! i) = Suc i" by (simp add: queue_inv_def)
    have fin: "step cfg (Finally i) s = Some ?s'"
      using i st res by simp
    have inv': "queue_inv ?s'"
      by (rule queue_inv_finally [OF inv i st])
    have rel: "stage (tasks ?s' ! i) = Released r"
      using i by (simp add: set_stage_nth)
    have next_ok: "step cfg (Resume (Suc i)) ?s' \<noteq> None" if n: "Suc i < length (tasks s)"
    proof -
      have "\<not> released (tasks s ! i)" using st by simp
      with inv n have w: "waiting (tasks s ! Suc i)"
        by (auto simp: queue_inv_def)
      have "\<not> waiting (tasks s ! i)" using st by simp
      with inv i have before: "\<forall>k<i. released (tasks s ! k)"
        by (simp add: queue_inv_def)
      have "waiting (tasks ?s' ! Suc i)"
        using w n by (simp add: set_stage_nth)
      moreover have "\<forall>k<Suc i. released (tasks ?s' ! k)"
        using before i by (auto simp: set_stage_nth less_Suc_eq)
      ultimately show ?thesis
        using startable [OF inv'] n by simp
    qed
    show "\<exists>s'. step cfg (Finally i) s = Some s' \<and>
                    stage (tasks s' ! i) = Released r \<and>
                    (Suc i < length (tasks s) \<longrightarrow> step cfg (Resume (Suc i)) s' \<noteq> None)"
      using fin rel next_ok by blast
  qed
  show ?thesis using a b c d e by blast
qed

text \<open>
  An instance: two commands are queued; the request of the first is rejected, the first
  leaves the queue, and the second sends its request.
\<close>

theorem serialize_fifo_witness:
  "map_option wire (exec default_config two_commands (init online)) =
     Some [(0, GetSceneList), (1, GetStreamStatus)] \<and>
   map_option (\<lambda>s. map stage (tasks s)) (exec default_config (take 4 two_commands) (init online)) =
     Some [Settled (Inl ''socket hang up''), Waiting] \<and>
   map_option fulfilled (exec default_config two_commands (init online)) =
     Some [True, True, False] \<and>
   sorted (map fst (wire (the (exec default_config two_commands (init online)))))"
proof -
  have w: "map_option wire (exec default_config two_commands (init online)) =
     Some [(0, GetSceneList), (1, GetStreamStatus)]"
    by (simp add: two_commands_def init_def online_def new_client_def set_stage_def
        setScene_def getSceneList_def stopStream_def ensureConnected_def obs_call_def)
  have st: "map_option (\<lambda>s. map stage (tasks s)) (exec default_config (take 4 two_commands) (init online)) =
     Some [Settled (Inl ''socket hang up''), Waiting]"
    by (simp add: two_commands_def init_def online_def new_client_def set_stage_def
        setScene_def getSceneList_def stopStream_def ensureConnected_def obs_call_def)
  have f: "map_option fulfilled (exec default_config two_commands (init online)) =
     Some [True, True, False]"
    by (simp add: two_commands_def init_def online_def new_client_def set_stage_def
        setScene_def getSceneList_def stopStream_def ensureConnected_def obs_call_def)
  from w obtain s where s: "exec default_config two_commands (init online) = Some s"
    by (cases "exec default_config two_commands (init online)") simp_all
  from serialize_fifo [OF s] have "sorted (map fst (wire s))" by blast
  with s w st f show ?thesis by simp
qed

end
